theory Spec2Isabelle
  imports Complex_Main
begin

section \<open>The question model and the quiz engine (quiz\_engine.py)\<close>

text \<open>
  The dataclass \<open>Question\<close>. The field \<open>id\<close> is written \<open>id_q\<close>, since \<open>id\<close> is
  HOL's identity function. Python's unbounded integers are \<open>int\<close>.
\<close>

record Question =
  id_q :: string
  category :: string
  difficulty :: string
  question :: string
  choices :: "string list"
  correct_index :: int
  rationale :: string

text \<open>
  The dictionary \<open>rec\<close> that \<open>check_and_record\<close> appends to the history. Its keys
  \<open>id\<close>, \<open>question\<close>, \<open>rationale\<close>, \<open>category\<close> and \<open>difficulty\<close> carry the prefix
  \<open>rec_\<close> here, to keep them apart from the fields of \<open>Question\<close>.
\<close>

record AnswerRecord =
  rec_id :: string
  rec_question :: string
  chosen :: string
  correct_text :: string
  is_correct :: bool
  rec_rationale :: string
  rec_category :: string
  rec_difficulty :: string

record QuizEngine =
  all_questions :: "Question list"
  quiz_items :: "Question list"
  index :: int
  correct_count :: int
  history :: "AnswerRecord list"

text \<open>\<open>QuizEngine.__init__\<close>\<close>

definition init_engine :: "Question list \<Rightarrow> QuizEngine" where
  "init_engine questions =
     \<lparr>all_questions = questions, quiz_items = [], index = 0, correct_count = 0, history = []\<rparr>"

text \<open>
  \<open>random.shuffle\<close> of the Python standard library, which \<open>prepare_quiz\<close> calls:
  \<^verbatim>\<open>for i in reversed(range(1, len(x))): j = randbelow(i + 1); x[i], x[j] = x[j], x[i]\<close>.
  The random source is the parameter \<open>rnd\<close>: the draw at position \<open>i\<close> is
  \<open>rnd i mod (i + 1)\<close>, so every outcome of the library function is the value of
  \<open>random_shuffle rnd\<close> for some \<open>rnd\<close>.
\<close>

fun shuffle_from :: "(nat \<Rightarrow> nat) \<Rightarrow> nat \<Rightarrow> 'a list \<Rightarrow> 'a list" where
  "shuffle_from rnd 0 xs = xs"
| "shuffle_from rnd (Suc i) xs =
     (let j = rnd (Suc i) mod (Suc i + 1)
      in shuffle_from rnd i (xs[Suc i := xs ! j, j := xs ! Suc i]))"

definition random_shuffle :: "(nat \<Rightarrow> nat) \<Rightarrow> 'a list \<Rightarrow> 'a list" where
  "random_shuffle rnd xs = shuffle_from rnd (length xs - 1) xs"

text \<open>The list comprehension of \<open>prepare_quiz\<close>: the questions the category filter keeps.\<close>

definition pool_of :: "string option \<Rightarrow> Question list \<Rightarrow> Question list" where
  "pool_of cat qs = filter (\<lambda>q. case cat of None \<Rightarrow> True | Some c \<Rightarrow> category q = c) qs"

text \<open>
  \<open>prepare_quiz(n, category, shuffle)\<close>. The slice \<open>pool[:max(1, n)]\<close> has a positive
  bound, so it is \<open>take\<close>.
\<close>

definition prepare_quiz ::
  "(nat \<Rightarrow> nat) \<Rightarrow> int \<Rightarrow> string option \<Rightarrow> bool \<Rightarrow> QuizEngine \<Rightarrow> QuizEngine" where
  "prepare_quiz rnd n cat shuffle s =
     (let pool = pool_of cat (all_questions s);
          pool' = (if shuffle then random_shuffle rnd pool else pool)
      in s\<lparr>quiz_items := take (nat (max 1 n)) pool', index := 0, correct_count := 0,
            history := []\<rparr>)"

definition current :: "QuizEngine \<Rightarrow> Question option" where
  "current s =
     (if 0 \<le> index s \<and> index s < int (length (quiz_items s))
      then Some (quiz_items s ! nat (index s)) else None)"

text \<open>\<open>q.choices[i] if 0 <= i < len(q.choices) else ""\<close>\<close>

definition choice_text :: "Question \<Rightarrow> int \<Rightarrow> string" where
  "choice_text q i =
     (if 0 \<le> i \<and> i < int (length (choices q)) then choices q ! nat i else [])"

definition make_record :: "Question \<Rightarrow> int \<Rightarrow> AnswerRecord" where
  "make_record q chosen_index =
     \<lparr>rec_id = id_q q, rec_question = question q,
      chosen = choice_text q chosen_index,
      correct_text = choice_text q (correct_index q),
      is_correct = (chosen_index = correct_index q),
      rec_rationale = rationale q, rec_category = category q,
      rec_difficulty = difficulty q\<rparr>"

text \<open>
  \<open>check_and_record(chosen_index)\<close> returns the pair \<open>(is_correct, rationale)\<close> and the
  engine after the call. A \<open>Question\<close> object is always truthy, so \<open>not q\<close> holds
  exactly when \<open>current()\<close> returned \<open>None\<close>.
\<close>

definition check_and_record :: "int \<Rightarrow> QuizEngine \<Rightarrow> (bool \<times> string) \<times> QuizEngine" where
  "check_and_record chosen_index s =
     (case current s of
        None \<Rightarrow> ((False, []), s)
      | Some q \<Rightarrow>
          (let is_c = (chosen_index = correct_index q);
               s1 = (if is_c then s\<lparr>correct_count := correct_count s + 1\<rparr> else s)
           in ((is_c, rationale q),
               s1\<lparr>history := history s1 @ [make_record q chosen_index]\<rparr>)))"

text \<open>\<open>next()\<close>; \<open>next\<close> is a keyword of Isabelle, hence the suffix.\<close>

definition next_q :: "QuizEngine \<Rightarrow> bool \<times> QuizEngine" where
  "next_q s =
     (if index s + 1 < int (length (quiz_items s))
      then (True, s\<lparr>index := index s + 1\<rparr>) else (False, s))"

definition score :: "QuizEngine \<Rightarrow> int" where
  "score s = correct_count s"

text \<open>
  A session is a sequence of calls on the engine that \<open>prepare_quiz\<close> left: the two
  methods that change it.
\<close>

datatype call = Check_and_record int | Next

fun apply_call :: "call \<Rightarrow> QuizEngine \<Rightarrow> QuizEngine" where
  "apply_call (Check_and_record i) s = snd (check_and_record i s)"
| "apply_call Next s = snd (next_q s)"

fun run_calls :: "call list \<Rightarrow> QuizEngine \<Rightarrow> QuizEngine" where
  "run_calls [] s = s"
| "run_calls (x # xs) s = run_calls xs (apply_call x s)"

text \<open>
  The number of submitted answers of a run: the calls of \<open>check_and_record\<close> that
  found a current question.
\<close>

fun submitted :: "call list \<Rightarrow> QuizEngine \<Rightarrow> nat" where
  "submitted [] s = 0"
| "submitted (Check_and_record i # xs) s =
     (if current s = None then 0 else 1) + submitted xs (snd (check_and_record i s))"
| "submitted (Next # xs) s = submitted xs (snd (next_q s))"

fun is_check :: "call \<Rightarrow> bool" where
  "is_check (Check_and_record i) = True"
| "is_check Next = False"

text \<open>
  A caller's discipline that the engine does not enforce: at most one answer is
  submitted at each position of the quiz. The flag says whether an answer has been
  submitted since the index last changed.
\<close>

fun one_answer_each :: "bool \<Rightarrow> call list \<Rightarrow> QuizEngine \<Rightarrow> bool" where
  "one_answer_each answered [] s = True"
| "one_answer_each answered (Check_and_record i # xs) s =
     (\<not> answered \<and> one_answer_each True xs (snd (check_and_record i s)))"
| "one_answer_each answered (Next # xs) s =
     one_answer_each (answered \<and> \<not> fst (next_q s)) xs (snd (next_q s))"

text \<open>
  The two invariants of a session: the index is between 0 and the last position (0
  when there is no position), and the score is the number of history entries marked
  correct.
\<close>

definition index_ok :: "QuizEngine \<Rightarrow> bool" where
  "index_ok s = (0 \<le> index s \<and> index s \<le> max 0 (int (length (quiz_items s)) - 1))"

definition score_ok :: "QuizEngine \<Rightarrow> bool" where
  "score_ok s = (correct_count s = int (length (filter is_correct (history s))))"

section \<open>The recommendation builder (TrainerApp.\_build\_recommendations, app.py)\<close>

text \<open>
  \<open>collections.Counter\<close> is a dictionary, and a Python dictionary keeps its keys in
  the order of their first insertion: an association list with distinct keys.
  \<open>counter[k] += 1\<close> adds one to the count of a key that is there, in place, and puts
  a new key with count 1 at the end.
\<close>

fun counter_add :: "'k \<Rightarrow> ('k \<times> int) list \<Rightarrow> ('k \<times> int) list" where
  "counter_add k [] = [(k, 1)]"
| "counter_add k ((k', n) # kvs) =
     (if k' = k then (k', n + 1) # kvs else (k', n) # counter_add k kvs)"

text \<open>
  \<open>Counter.most_common(n)\<close> is \<open>heapq.nlargest(n, items, key=count)\<close>, which the
  library documents as \<open>sorted(items, key=count, reverse=True)[:n]\<close>; Python's sort is
  stable, also with \<open>reverse=True\<close>, so items of equal count keep the dictionary's
  order. \<open>sort_key\<close> is a stable insertion sort; the descending order is the ascending
  order of the negated count.
\<close>

definition most_common :: "nat \<Rightarrow> ('k \<times> int) list \<Rightarrow> ('k \<times> int) list" where
  "most_common n kvs = take n (sort_key (\<lambda>kv. - snd kv) kvs)"

text \<open>
  \<open>defaultdict(list)\<close>: \<open>d[k].append(v)\<close> creates the empty list for a new key first;
  \<open>d.get(k, [])\<close> reads with the default.
\<close>

fun dd_append :: "'k \<Rightarrow> 'v \<Rightarrow> ('k \<times> 'v list) list \<Rightarrow> ('k \<times> 'v list) list" where
  "dd_append k v [] = [(k, [v])]"
| "dd_append k v ((k', vs) # kvs) =
     (if k' = k then (k', vs @ [v]) # kvs else (k', vs) # dd_append k v kvs)"

definition dd_get :: "('k \<times> 'v list) list \<Rightarrow> 'k \<Rightarrow> 'v list" where
  "dd_get kvs k = (case map_of kvs k of None \<Rightarrow> [] | Some vs \<Rightarrow> vs)"

text \<open>
  The loop over the history: the three accumulators \<open>wrong_by_cat\<close>, \<open>wrong_by_diff\<close>
  and \<open>rationales\<close>. A rationale is recorded when \<open>rec.get("rationale")\<close> is truthy,
  that is, a non-empty string.
\<close>

type_synonym tally =
  "(string \<times> int) list \<times> (string \<times> int) list \<times> (string \<times> string list) list"

definition tally_record :: "tally \<Rightarrow> AnswerRecord \<Rightarrow> tally" where
  "tally_record t r =
     (case t of (wrong_by_cat, wrong_by_diff, rationales) \<Rightarrow>
        if \<not> is_correct r
        then (counter_add (rec_category r) wrong_by_cat,
              counter_add (rec_difficulty r) wrong_by_diff,
              if rec_rationale r \<noteq> []
              then dd_append (rec_category r) (rec_rationale r) rationales
              else rationales)
        else t)"

definition tally_history :: "AnswerRecord list \<Rightarrow> tally" where
  "tally_history h = foldl tally_record ([], [], []) h"

text \<open>
  The text the builder returns is \<open>"\n".join(lines)\<close>. The model returns the list of
  lines, each line by the format string that makes it (the fixed words of a line are
  not part of any claim, and some of their characters are not ASCII):
  \<^item> \<open>Focus_heading\<close>: the heading "Recommendations (focus on these topics):";
  \<^item> \<open>Great_job\<close>: the one string returned when no answer is wrong, "Recommendations:"
    followed by "Great job - no missed questions. Review tips tab for reinforcement.";
  \<^item> \<open>Topic cat\<close>: the bullet "cat - revise fundamentals and procedures.";
  \<^item> \<open>Note i r\<close>: the indented "Note i: r";
  \<^item> \<open>Toughest d\<close>: the bullet "Your toughest level: d. Try more practice questions in
    this difficulty.".
  The empty string of the first \<open>return\<close> is the empty list of lines.
\<close>

datatype line = Focus_heading | Great_job | Topic string | Note nat string | Toughest string

text \<open>\<open>enumerate(rs, start=i)\<close> over the rationales of one category.\<close>

fun note_lines :: "nat \<Rightarrow> string list \<Rightarrow> line list" where
  "note_lines i [] = []"
| "note_lines i (r # rs) = Note i r # note_lines (i + 1) rs"

definition topic_lines :: "(string \<times> string list) list \<Rightarrow> string \<Rightarrow> line list" where
  "topic_lines rationales cat = Topic cat # note_lines 1 (take 2 (dd_get rationales cat))"

text \<open>\<open>wrong_by_diff.most_common(1)[0][0]\<close>, read only when the counter is not empty.\<close>

definition hardest_of :: "(string \<times> int) list \<Rightarrow> string" where
  "hardest_of wrong_by_diff = fst (hd (most_common 1 wrong_by_diff))"

text \<open>
  \<open>_build_recommendations\<close>. The argument is \<open>self.engine\<close>, which is \<open>None\<close> until a
  bank is loaded. An engine object is always truthy; a list is falsy when empty, and so
  are a counter with no key and the empty string \<open>hardest\<close>.
\<close>

definition build_recommendations :: "QuizEngine option \<Rightarrow> line list" where
  "build_recommendations engine =
     (case engine of
        None \<Rightarrow> []
      | Some e \<Rightarrow>
          if history e = [] then []
          else (case tally_history (history e) of (wrong_by_cat, wrong_by_diff, rationales) \<Rightarrow>
            if wrong_by_cat = [] then [Great_job]
            else
              (let top_cats = map fst (most_common 3 wrong_by_cat);
                   lines = Focus_heading # concat (map (topic_lines rationales) top_cats)
               in if wrong_by_diff \<noteq> []
                  then (let hardest = hardest_of wrong_by_diff
                        in if hardest \<noteq> [] then lines @ [Toughest hardest] else lines)
                  else lines)))"

text \<open>What a reader of the output sees: the categories listed, and the difficulty hints.\<close>

fun listed_categories :: "line list \<Rightarrow> string list" where
  "listed_categories [] = []"
| "listed_categories (Topic cat # ls) = cat # listed_categories ls"
| "listed_categories (l # ls) = listed_categories ls"

fun difficulty_hints :: "line list \<Rightarrow> string list" where
  "difficulty_hints [] = []"
| "difficulty_hints (Toughest d # ls) = d # difficulty_hints ls"
| "difficulty_hints (l # ls) = difficulty_hints ls"

text \<open>
  The words of the specification about a history: its incorrect records, how many of
  them a category or a difficulty level has, and where a value is first seen in a list
  (its position, the length of the list when it is not there).
\<close>

definition wrong_records :: "AnswerRecord list \<Rightarrow> AnswerRecord list" where
  "wrong_records h = filter (\<lambda>r. \<not> is_correct r) h"

definition wrong_cats :: "AnswerRecord list \<Rightarrow> string list" where
  "wrong_cats h = map rec_category (wrong_records h)"

definition wrong_diffs :: "AnswerRecord list \<Rightarrow> string list" where
  "wrong_diffs h = map rec_difficulty (wrong_records h)"

definition occurrences :: "'a list \<Rightarrow> 'a \<Rightarrow> int" where
  "occurrences xs x = int (length (filter (\<lambda>y. y = x) xs))"

definition first_seen :: "'a list \<Rightarrow> 'a \<Rightarrow> nat" where
  "first_seen xs x = length (takeWhile (\<lambda>y. y \<noteq> x) xs)"

text \<open>
  \<open>ranks_before xs a b\<close>: in the ranking of the values of \<open>xs\<close>, \<open>a\<close> stands before
  \<open>b\<close>: it occurs more often, or as often and is first seen earlier.
\<close>

definition ranks_before :: "'a list \<Rightarrow> 'a \<Rightarrow> 'a \<Rightarrow> bool" where
  "ranks_before xs a b =
     (occurrences xs b < occurrences xs a \<or>
      (occurrences xs a = occurrences xs b \<and> first_seen xs a < first_seen xs b))"

text \<open>
  For the proofs: a counter filled from a list of keys, as the loop fills
  \<open>wrong_by_cat\<close> and \<open>wrong_by_diff\<close>; the values of a list in the order they are
  first seen; and the ranking \<open>most_common\<close> gives of the values of a list.
\<close>

definition count_all :: "('k \<times> int) list \<Rightarrow> 'k list \<Rightarrow> ('k \<times> int) list" where
  "count_all acc ks = foldl (\<lambda>a k. counter_add k a) acc ks"

definition seen_order :: "'a list \<Rightarrow> 'a list" where
  "seen_order xs = rev (remdups (rev xs))"

definition ranking :: "'a list \<Rightarrow> 'a list" where
  "ranking xs = map fst (sort_key (\<lambda>kv. - snd kv) (count_all [] xs))"

section \<open>Double-precision numbers (the cells of the numpy grid)\<close>

text \<open>
  The grid of the simulator is \<open>np.zeros((NY, NX), dtype=float)\<close> and the sliders are
  read as Python floats: every number of the simulator is an IEEE 754 binary64 value,
  and every operation rounds its exact result to the nearest such value, ties to even.
  A value is a finite number, one of the two infinities, or NaN. The sign of zero and
  the payload of a NaN are not modelled: the simulator never divides, and its
  comparisons and its results do not tell the two zeros apart.
\<close>

datatype f64 = Fin real | PInf | NInf | NaN

text \<open>
  \<open>pow2 k\<close> is \<open>2^k\<close> for an integer \<open>k\<close>. The quantum of a real number \<open>x\<close> is the
  exponent of the spacing of the doubles around it: the least \<open>q\<close> from \<open>-1074\<close> (the
  subnormal spacing) upwards with \<open>\<bar>x\<bar> < 2^(q + 53)\<close>, found by counting up.
\<close>

definition pow2 :: "int \<Rightarrow> real" where
  "pow2 k = (if 0 \<le> k then 2 ^ nat k else 1 / 2 ^ nat (- k))"

fun quantum_from :: "nat \<Rightarrow> int \<Rightarrow> real \<Rightarrow> int" where
  "quantum_from 0 q a = q"
| "quantum_from (Suc n) q a = (if a < pow2 (q + 53) then q else quantum_from n (q + 1) a)"

definition quantum :: "real \<Rightarrow> int" where
  "quantum x = quantum_from 2045 (- 1074) \<bar>x\<bar>"

text \<open>Rounding a real number to the nearest integer, a tie to the even one.\<close>

definition rne :: "real \<Rightarrow> int" where
  "rne y =
     (let f = \<lfloor>y\<rfloor>; r = y - of_int f
      in if r < 1 / 2 then f else if 1 / 2 < r then f + 1 else if even f then f else f + 1)"

text \<open>
  Rounding a real number to a double: to the nearest multiple of its quantum, and to
  an infinity from \<open>2^1024 - 2^970\<close> on, the midpoint between the largest finite
  double and \<open>2^1024\<close>.
\<close>

definition nearest :: "real \<Rightarrow> real" where
  "nearest x = of_int (rne (x / pow2 (quantum x))) * pow2 (quantum x)"

definition overflow_bound :: real where
  "overflow_bound = pow2 1024 - pow2 970"

definition round64 :: "real \<Rightarrow> f64" where
  "round64 x =
     (if overflow_bound \<le> \<bar>x\<bar> then (if 0 < x then PInf else NInf) else Fin (nearest x))"

text \<open>
  The real numbers that are doubles: an integer of less than 53 bits times a power
  of two in the range of the format.
\<close>

definition representable :: "real \<Rightarrow> bool" where
  "representable y =
     (\<exists>m k. y = of_int m * pow2 k \<and> \<bar>m\<bar> < 2 ^ 53 \<and> - 1074 \<le> k \<and> k \<le> 971)"

text \<open>
  The operations the simulator uses: \<open>-\<close>, \<open>+\<close>, \<open>-\<close> and \<open>*\<close> of floats, the
  comparison \<open>\<le>\<close>, numpy's \<open>maximum\<close> and \<open>minimum\<close> (which return NaN when an
  argument is NaN), and the test \<open>x > 0\<close> (false for NaN).
\<close>

fun fneg :: "f64 \<Rightarrow> f64" where
  "fneg (Fin x) = Fin (- x)"
| "fneg PInf = NInf"
| "fneg NInf = PInf"
| "fneg NaN = NaN"

fun fadd :: "f64 \<Rightarrow> f64 \<Rightarrow> f64" where
  "fadd (Fin x) (Fin y) = round64 (x + y)"
| "fadd NaN b = NaN"
| "fadd a NaN = NaN"
| "fadd PInf NInf = NaN"
| "fadd NInf PInf = NaN"
| "fadd PInf b = PInf"
| "fadd a PInf = PInf"
| "fadd NInf b = NInf"
| "fadd a NInf = NInf"

definition fsub :: "f64 \<Rightarrow> f64 \<Rightarrow> f64" where
  "fsub a b = fadd a (fneg b)"

fun fmul :: "f64 \<Rightarrow> f64 \<Rightarrow> f64" where
  "fmul (Fin x) (Fin y) = round64 (x * y)"
| "fmul NaN b = NaN"
| "fmul a NaN = NaN"
| "fmul (Fin x) PInf = (if x = 0 then NaN else if 0 < x then PInf else NInf)"
| "fmul (Fin x) NInf = (if x = 0 then NaN else if 0 < x then NInf else PInf)"
| "fmul PInf (Fin y) = (if y = 0 then NaN else if 0 < y then PInf else NInf)"
| "fmul NInf (Fin y) = (if y = 0 then NaN else if 0 < y then NInf else PInf)"
| "fmul PInf PInf = PInf"
| "fmul PInf NInf = NInf"
| "fmul NInf PInf = NInf"
| "fmul NInf NInf = PInf"

fun fle :: "f64 \<Rightarrow> f64 \<Rightarrow> bool" where
  "fle (Fin x) (Fin y) = (x \<le> y)"
| "fle NaN b = False"
| "fle a NaN = False"
| "fle NInf b = True"
| "fle a PInf = True"
| "fle a NInf = False"
| "fle PInf b = False"

definition fmaximum :: "f64 \<Rightarrow> f64 \<Rightarrow> f64" where
  "fmaximum a b = (if a = NaN \<or> b = NaN then NaN else if fle a b then b else a)"

definition fminimum :: "f64 \<Rightarrow> f64 \<Rightarrow> f64" where
  "fminimum a b = (if a = NaN \<or> b = NaN then NaN else if fle a b then a else b)"

fun is_positive :: "f64 \<Rightarrow> bool" where
  "is_positive (Fin x) = (0 < x)"
| "is_positive PInf = True"
| "is_positive NInf = False"
| "is_positive NaN = False"

text \<open>
  The literal \<open>0.6\<close> of the vent stage is the double nearest to 3/5. (The literals
  \<open>0.5\<close>, \<open>1\<close>, \<open>4\<close>, \<open>0.0\<close> and \<open>5.0\<close> are doubles as they stand.)
\<close>

definition lit_0_6 :: f64 where
  "lit_0_6 = Fin (5404319552844595 / 2 ^ 53)"

section \<open>The dispersion simulator (class SafetyAnimation, app.py)\<close>

text \<open>
  The concentration grid is a numpy array of \<open>NY\<close> rows and \<open>NX\<close> columns of doubles:
  a list of rows here, \<open>g ! j ! i\<close> for \<open>c[j, i]\<close>.
\<close>

type_synonym grid = "f64 list list"

definition NX :: nat where "NX = 70"
definition NY :: nat where "NY = 35"

definition leak_cell :: "nat \<times> nat" where
  "leak_cell = (6, NY - 4)"

definition vent_x0 :: nat where "vent_x0 = 20"
definition vent_x1 :: nat where "vent_x1 = NX - 20"

text \<open>
  The state \<open>_step\<close> reads and writes: the two buffers, and the four sliders
  (\<open>self.leak_rate.get()\<close> and so on).
\<close>

record SafetyAnimation =
  c :: grid
  tmp :: grid
  leak_rate :: f64
  vent_strength :: f64
  buoyancy :: f64
  diffusion :: f64

definition wf_grid :: "grid \<Rightarrow> bool" where
  "wf_grid g = (length g = NY \<and> (\<forall>r \<in> set g. length r = NX))"

text \<open>\<open>_init_grid\<close>: both buffers are zero.\<close>

definition init_grid :: "SafetyAnimation \<Rightarrow> SafetyAnimation" where
  "init_grid s =
     s\<lparr>c := replicate NY (replicate NX (Fin 0)), tmp := replicate NY (replicate NX (Fin 0))\<rparr>"

text \<open>\<open>c[lj, li] += 0.5 * self.leak_rate.get()\<close>\<close>

definition inject_stage :: "SafetyAnimation \<Rightarrow> SafetyAnimation" where
  "inject_stage s =
     (case leak_cell of (li, lj) \<Rightarrow>
        s\<lparr>c := (c s)[lj := (c s ! lj)[li := fadd (c s ! lj ! li)
                                                (fmul (Fin (1 / 2)) (leak_rate s))]]\<rparr>)"

text \<open>
  The buoyancy stage. After \<open>tmp[:] = c[:]\<close>, the statement
  \<open>tmp[:-1, :] += up * c[1:, :]\<close> adds to every row but the last \<open>up\<close> times the row
  below it, and \<open>tmp[1:, :] -= up * c[1:, :]\<close> takes from every row but the first \<open>up\<close>
  times the row itself, both read from \<open>c\<close>. Every product, sum and difference is
  rounded.
\<close>

definition add_scaled :: "f64 \<Rightarrow> f64 list \<Rightarrow> f64 list \<Rightarrow> f64 list" where
  "add_scaled k r r' = map2 (\<lambda>a b. fadd a (fmul k b)) r r'"

definition sub_scaled :: "f64 \<Rightarrow> f64 list \<Rightarrow> f64 list \<Rightarrow> f64 list" where
  "sub_scaled k r r' = map2 (\<lambda>a b. fsub a (fmul k b)) r r'"

definition add_below :: "f64 \<Rightarrow> grid \<Rightarrow> grid" where
  "add_below up g =
     map2 (add_scaled up) (take (length g - 1) g) (drop 1 g) @ drop (length g - 1) g"

definition sub_own :: "f64 \<Rightarrow> grid \<Rightarrow> grid \<Rightarrow> grid" where
  "sub_own up t g = take 1 t @ map2 (sub_scaled up) (drop 1 t) (drop 1 g)"

definition advect_up :: "f64 \<Rightarrow> grid \<Rightarrow> grid" where
  "advect_up up g = sub_own up (add_below up g) g"

text \<open>\<open>np.maximum(tmp, 0.0)\<close>\<close>

definition clamp0 :: "grid \<Rightarrow> grid" where
  "clamp0 g = map (map (\<lambda>v. fmaximum v (Fin 0))) g"

definition buoyancy_stage :: "SafetyAnimation \<Rightarrow> SafetyAnimation" where
  "buoyancy_stage s =
     (let up = buoyancy s
      in if is_positive up
         then (let t = advect_up up (c s) in s\<lparr>tmp := t, c := clamp0 t\<rparr>)
         else s)"

text \<open>
  The diffusion stage: the interior cells (\<open>1:-1\<close> in both directions) get
  \<open>(1-4*d) * c + d * (below + above + right + left)\<close>, the operations in the order of
  the source and each of them rounded; the cells of the outer ring keep the value of
  \<open>c\<close>.
\<close>

definition diffuse_cell :: "f64 \<Rightarrow> grid \<Rightarrow> nat \<Rightarrow> nat \<Rightarrow> f64" where
  "diffuse_cell d g j i =
     (if 1 \<le> j \<and> j + 1 < length g \<and> 1 \<le> i \<and> i + 1 < length (g ! j)
      then fadd (fmul (fsub (Fin 1) (fmul (Fin 4) d)) (g ! j ! i))
                (fmul d (fadd (fadd (fadd (g ! (j + 1) ! i) (g ! (j - 1) ! i))
                                    (g ! j ! (i + 1)))
                              (g ! j ! (i - 1))))
      else g ! j ! i)"

definition diffuse :: "f64 \<Rightarrow> grid \<Rightarrow> grid" where
  "diffuse d g = map (\<lambda>j. map (diffuse_cell d g j) [0..<length (g ! j)]) [0..<length g]"

definition diffusion_stage :: "SafetyAnimation \<Rightarrow> SafetyAnimation" where
  "diffusion_stage s =
     (let d = diffusion s
      in if is_positive d
         then (let t = diffuse d (c s) in s\<lparr>tmp := t, c := clamp0 t\<rparr>)
         else s)"

text \<open>\<open>c[0, i0:i1] *= (1 - 0.6 * vent)\<close>\<close>

definition vent_row :: "f64 \<Rightarrow> f64 list \<Rightarrow> f64 list" where
  "vent_row vent r =
     take vent_x0 r
     @ map (\<lambda>v. fmul v (fsub (Fin 1) (fmul lit_0_6 vent)))
         (take (vent_x1 - vent_x0) (drop vent_x0 r))
     @ drop vent_x1 r"

definition vent_stage :: "SafetyAnimation \<Rightarrow> SafetyAnimation" where
  "vent_stage s =
     (let vent = vent_strength s
      in if is_positive vent then s\<lparr>c := (c s)[0 := vent_row vent (c s ! 0)]\<rparr> else s)"

text \<open>\<open>np.clip(c, 0.0, 5.0, out=c)\<close>\<close>

definition clip :: "grid \<Rightarrow> grid" where
  "clip g = map (map (\<lambda>v. fminimum (fmaximum v (Fin 0)) (Fin 5))) g"

definition clip_stage :: "SafetyAnimation \<Rightarrow> SafetyAnimation" where
  "clip_stage s = s\<lparr>c := clip (c s)\<rparr>"

text \<open>\<open>_step\<close>: the five stages in the order of the source.\<close>

definition step :: "SafetyAnimation \<Rightarrow> SafetyAnimation" where
  "step s = clip_stage (vent_stage (diffusion_stage (buoyancy_stage (inject_stage s))))"

text \<open>
  What the claims say of a grid. \<open>total\<close> is the exact sum of the (finite) cells, the
  mass in the room; \<open>all_cells P\<close> says that \<open>P\<close> holds of every cell; \<open>between lo hi\<close>
  that a value is a finite number in \<open>[lo, hi]\<close>; \<open>nonneg_double\<close> that it is a double
  and not negative; \<open>not_negative\<close> that it is neither NaN nor below zero (it may be
  \<open>+\<infinity>\<close>); \<open>rectangular\<close> that every row has the length of the first.
\<close>

fun val :: "f64 \<Rightarrow> real" where
  "val (Fin x) = x"
| "val v = 0"

definition total :: "grid \<Rightarrow> real" where
  "total g = sum_list (map (\<lambda>r. sum_list (map val r)) g)"

definition all_cells :: "(f64 \<Rightarrow> bool) \<Rightarrow> grid \<Rightarrow> bool" where
  "all_cells P g = (\<forall>r \<in> set g. \<forall>v \<in> set r. P v)"

fun between :: "real \<Rightarrow> real \<Rightarrow> f64 \<Rightarrow> bool" where
  "between lo hi (Fin x) = (lo \<le> x \<and> x \<le> hi)"
| "between lo hi v = False"

fun nonneg_double :: "f64 \<Rightarrow> bool" where
  "nonneg_double (Fin x) = (representable x \<and> 0 \<le> x)"
| "nonneg_double v = False"

fun not_negative :: "f64 \<Rightarrow> bool" where
  "not_negative (Fin x) = (0 \<le> x)"
| "not_negative PInf = True"
| "not_negative NInf = False"
| "not_negative NaN = False"

definition rectangular :: "grid \<Rightarrow> bool" where
  "rectangular g = (\<forall>r \<in> set g. length r = length (hd g))"

text \<open>
  For the proofs: a finite value of magnitude at most \<open>2^k\<close>; the rows below the first
  after the two slice updates of the buoyancy stage; the shape of a grid whose rows
  all have \<open>n\<close> cells; the sum of a row, and the sum of the rounded products
  \<open>up * c\<close> of a row; a double in \<open>[0, 6]\<close>; and the bound \<open>2^-49\<close> on the rounding
  error of the two operations on one cell.
\<close>

fun lev :: "nat \<Rightarrow> f64 \<Rightarrow> bool" where
  "lev k (Fin x) = (\<bar>x\<bar> \<le> 2 ^ k)"
| "lev k v = False"

definition lower_rows :: "f64 \<Rightarrow> grid \<Rightarrow> grid" where
  "lower_rows up g = map2 (sub_scaled up) (add_below up g) g"

definition rows_of_length :: "nat \<Rightarrow> grid \<Rightarrow> bool" where
  "rows_of_length n g = (\<forall>r \<in> set g. length r = n)"

definition row_sum :: "f64 list \<Rightarrow> real" where
  "row_sum r = sum_list (map val r)"

definition moved :: "real \<Rightarrow> f64 list \<Rightarrow> real" where
  "moved u r = sum_list (map (\<lambda>b. val (fmul (Fin u) b)) r)"

definition small_double :: "f64 \<Rightarrow> bool" where
  "small_double v = (nonneg_double v \<and> between 0 6 v)"

definition rounding_unit :: real where
  "rounding_unit = 1 / 2 ^ 49"

section \<open>Example inputs\<close>

text \<open>A bank of two questions, and the session of both in the bank's order.\<close>

definition q_a :: Question where
  "q_a = \<lparr>id_q = ''1'', category = ''A'', difficulty = ''easy'', question = ''first'',
          choices = [''yes'', ''no''], correct_index = 0, rationale = ''because''\<rparr>"

definition q_b :: Question where
  "q_b = \<lparr>id_q = ''2'', category = ''B'', difficulty = ''hard'', question = ''second'',
          choices = [''left'', ''right''], correct_index = 1, rationale = []\<rparr>"

definition demo_session :: QuizEngine where
  "demo_session = prepare_quiz (\<lambda>i. 0) 5 None False (init_engine [q_a, q_b])"

text \<open>
  A session of seven questions: six answered wrongly, in the categories B, A, C, A, C,
  A and the difficulties hard, easy, hard, easy, easy, hard, and one answered
  correctly. And a session of one question with no difficulty, answered wrongly.
\<close>

definition mk_question :: "string \<Rightarrow> string \<Rightarrow> Question" where
  "mk_question cat diff =
     \<lparr>id_q = [], category = cat, difficulty = diff, question = [],
      choices = [''yes'', ''no''], correct_index = 0, rationale = ''why''\<rparr>"

definition demo_finished :: QuizEngine where
  "demo_finished =
     run_calls
       [Check_and_record 1, Next, Check_and_record 1, Next, Check_and_record 1, Next,
        Check_and_record 1, Next, Check_and_record 1, Next, Check_and_record 1, Next,
        Check_and_record 0]
       (prepare_quiz (\<lambda>i. 0) 7 None False
          (init_engine
             [mk_question ''B'' ''hard'', mk_question ''A'' ''easy'', mk_question ''C'' ''hard'',
              mk_question ''A'' ''easy'', mk_question ''C'' ''easy'', mk_question ''A'' ''hard'',
              mk_question ''A'' ''easy'']))"

definition blank_finished :: QuizEngine where
  "blank_finished =
     run_calls [Check_and_record 1]
       (prepare_quiz (\<lambda>i. 0) 1 None False (init_engine [mk_question ''General'' []]))"

text \<open>
  The simulator as \<open>__init__\<close> leaves it: the zero grid, and the sliders at their
  default values 0.8, 0.6, 0.45 and 0.2, each the double nearest to the decimal.
\<close>

definition demo_sim :: SafetyAnimation where
  "demo_sim = init_grid \<lparr>c = [], tmp = [],
     leak_rate = Fin (3602879701896397 / 2 ^ 52),
     vent_strength = Fin (5404319552844595 / 2 ^ 53),
     buoyancy = Fin (8106479329266893 / 2 ^ 54),
     diffusion = Fin (3602879701896397 / 2 ^ 54)\<rparr>"

text \<open>
  The zero grid with the diffusion parameter at the finite double \<open>2^1023\<close> and the
  other parameters at zero.
\<close>

definition big_diffusion :: f64 where
  "big_diffusion = Fin (2 ^ 1023)"

definition nan_sim :: SafetyAnimation where
  "nan_sim = init_grid \<lparr>c = [], tmp = [], leak_rate = Fin 0, vent_strength = Fin 0,
     buoyancy = Fin 0, diffusion = big_diffusion\<rparr>"

text \<open>
  A grid of the simulator's shape with the same value in every cell: every cell 1
  with the default buoyancy, and every cell 1 with the buoyancy \<open>3 / 2^55\<close>.
\<close>

definition tiny :: real where
  "tiny = 3 / 2 ^ 55"

definition uniform_sim :: "f64 \<Rightarrow> f64 \<Rightarrow> SafetyAnimation" where
  "uniform_sim v up =
     \<lparr>c = replicate NY (replicate NX v), tmp = replicate NY (replicate NX (Fin 0)),
      leak_rate = Fin 0, vent_strength = Fin 0, buoyancy = up, diffusion = Fin 0\<rparr>"

definition ones_default :: SafetyAnimation where
  "ones_default = uniform_sim (Fin 1) (Fin (8106479329266893 / 2 ^ 54))"

definition ones_tiny :: SafetyAnimation where
  "ones_tiny = uniform_sim (Fin 1) (Fin tiny)"

section \<open>Properties of the quiz engine\<close>

subsection \<open>What \<open>prepare_quiz\<close> leaves\<close>

lemma length_shuffle_from: "length (shuffle_from rnd i xs) = length xs"
  by (induction i arbitrary: xs) (simp_all add: Let_def)

lemma length_random_shuffle: "length (random_shuffle rnd xs) = length xs"
  by (simp add: random_shuffle_def length_shuffle_from)

lemma random_shuffle_Nil: "random_shuffle rnd [] = []"
  by (simp add: random_shuffle_def)

lemma demo_session_eq:
  "demo_session = \<lparr>all_questions = [q_a, q_b], quiz_items = [q_a, q_b], index = 0,
     correct_count = 0, history = []\<rparr>"
  by (simp add: demo_session_def prepare_quiz_def init_engine_def pool_of_def Let_def)

text \<open>
  C3 (pool truncation and reset). For every bank, every requested count \<open>n\<close> and
  every category filter, with \<open>pool\<close> the questions the filter keeps,
  \<open>prepare_quiz\<close> leaves \<open>len(quiz_items) = min(max(1, n), len(pool))\<close>, which is 0
  for an empty pool; no filter keeps the whole bank; index and correct\_count are 0 and
  the history is empty. This holds with and without the shuffle, whatever the random
  draws, and from every state of the engine.
\<close>

theorem prepare_quiz_truncates:
  "(let pool = pool_of cat (all_questions e); s0 = prepare_quiz rnd n cat sh e in
      length (quiz_items s0) = min (nat (max 1 n)) (length pool)
    \<and> (pool = [] \<longrightarrow> quiz_items s0 = [])
    \<and> pool_of None (all_questions e) = all_questions e
    \<and> index s0 = 0 \<and> correct_count s0 = 0 \<and> history s0 = [])"
  by (simp add: prepare_quiz_def Let_def length_random_shuffle random_shuffle_Nil min.commute
      pool_of_def)

theorem prepare_quiz_truncates_witness:
  "length (quiz_items (prepare_quiz (\<lambda>i. 0) 1 None True (init_engine [q_a, q_b]))) = 1
   \<and> pool_of (Some ''C'') (all_questions (init_engine [q_a, q_b])) = []
   \<and> quiz_items (prepare_quiz (\<lambda>i. 0) 1 (Some ''C'') True (init_engine [q_a, q_b])) = []"
proof -
  have p: "pool_of (Some ''C'') (all_questions (init_engine [q_a, q_b])) = []"
    by (simp add: pool_of_def init_engine_def q_a_def q_b_def)
  have l: "length (pool_of None (all_questions (init_engine [q_a, q_b]))) = 2"
    by (simp add: pool_of_def init_engine_def)
  show ?thesis
    using prepare_quiz_truncates [of None "init_engine [q_a, q_b]" "\<lambda>i. 0" 1 True]
      prepare_quiz_truncates [of "Some ''C''" "init_engine [q_a, q_b]" "\<lambda>i. 0" 1 True] p l
    by (simp add: Let_def)
qed

subsection \<open>The guard of \<open>check_and_record\<close>\<close>

text \<open>
  C4 (guarded no-op). \<open>current()\<close> is absent when the index is not below
  \<open>len(quiz_items)\<close>, in particular when \<open>quiz_items\<close> is empty. Whenever it is
  absent, \<open>check_and_record\<close> returns \<open>(False, "")\<close> and the engine is unchanged, so
  index, correct\_count and history are exactly what they were.
\<close>

theorem check_and_record_guard:
  "(int (length (quiz_items s)) \<le> index s \<longrightarrow> current s = None)
   \<and> (quiz_items s = [] \<longrightarrow> current s = None)
   \<and> (current s = None \<longrightarrow>
         check_and_record chosen_index s = ((False, []), s)
         \<and> index (snd (check_and_record chosen_index s)) = index s
         \<and> correct_count (snd (check_and_record chosen_index s)) = correct_count s
         \<and> history (snd (check_and_record chosen_index s)) = history s)"
  by (auto simp add: check_and_record_def current_def)

theorem check_and_record_guard_witness:
  "quiz_items (prepare_quiz (\<lambda>i. 0) 3 (Some ''C'') False (init_engine [q_a, q_b])) = []
   \<and> current (prepare_quiz (\<lambda>i. 0) 3 (Some ''C'') False (init_engine [q_a, q_b])) = None
   \<and> check_and_record 0 (prepare_quiz (\<lambda>i. 0) 3 (Some ''C'') False (init_engine [q_a, q_b]))
     = ((False, []), prepare_quiz (\<lambda>i. 0) 3 (Some ''C'') False (init_engine [q_a, q_b]))"
proof -
  let ?e = "prepare_quiz (\<lambda>i. 0) 3 (Some ''C'') False (init_engine [q_a, q_b])"
  have h: "quiz_items ?e = []"
    by (simp add: prepare_quiz_def pool_of_def init_engine_def q_a_def q_b_def Let_def)
  from h check_and_record_guard [of ?e 0] show ?thesis by blast
qed

subsection \<open>Invariants of a session\<close>

text \<open>The calls never change \<open>quiz_items\<close>.\<close>

lemma quiz_items_apply_call: "quiz_items (apply_call x s) = quiz_items s"
  by (cases x) (simp_all add: check_and_record_def next_q_def Let_def split: option.splits)

lemma quiz_items_run_calls: "quiz_items (run_calls xs s) = quiz_items s"
  by (induction xs arbitrary: s) (simp_all add: quiz_items_apply_call)

lemma run_calls_append: "run_calls (xs @ ys) s = run_calls ys (run_calls xs s)"
  by (induction xs arbitrary: s) simp_all

text \<open>
  The index stays in range: \<open>next\<close> is the only method that moves it, and only
  below \<open>len(quiz_items)\<close>.
\<close>

lemma index_ok_apply_call: "index_ok s \<Longrightarrow> index_ok (apply_call x s)"
  by (cases x)
    (auto simp add: index_ok_def check_and_record_def next_q_def Let_def split: option.splits)

lemma index_ok_run_calls: "index_ok s \<Longrightarrow> index_ok (run_calls xs s)"
  by (induction xs arbitrary: s) (simp_all add: index_ok_apply_call)

lemma index_ok_prepare_quiz: "index_ok (prepare_quiz rnd n cat sh e)"
  by (simp add: index_ok_def prepare_quiz_def Let_def)

lemma current_None_iff: "index_ok s \<Longrightarrow> current s = None \<longleftrightarrow> quiz_items s = []"
  by (cases "quiz_items s") (auto simp add: index_ok_def current_def)

text \<open>
  C9 (\<open>current()\<close> is absent only for empty sessions). After \<open>prepare_quiz\<close> and
  every sequence of \<open>check_and_record\<close> and \<open>next\<close> calls: \<open>quiz_items\<close> is what
  \<open>prepare_quiz\<close> left; \<open>current()\<close> is absent if and only if \<open>quiz_items\<close> is empty;
  for a non-empty session the index is in \<open>[0, len(quiz_items) - 1]\<close>, so \<open>next\<close> never
  moved it past the last position, and \<open>current()\<close> is the question at the index; for
  an empty session the index is 0.
\<close>

theorem current_absent_iff_empty:
  "(let s0 = prepare_quiz rnd n cat sh e; s = run_calls xs s0 in
      quiz_items s = quiz_items s0
    \<and> (current s = None \<longleftrightarrow> quiz_items s0 = [])
    \<and> (quiz_items s0 \<noteq> [] \<longrightarrow>
         0 \<le> index s \<and> index s \<le> int (length (quiz_items s0)) - 1
         \<and> current s = Some (quiz_items s0 ! nat (index s)))
    \<and> (quiz_items s0 = [] \<longrightarrow> index s = 0))"
proof -
  let ?start = "prepare_quiz rnd n cat sh e"
  let ?fin = "run_calls xs ?start"
  have q: "quiz_items ?fin = quiz_items ?start" by (rule quiz_items_run_calls)
  have ok: "index_ok ?fin"
    by (rule index_ok_run_calls) (rule index_ok_prepare_quiz)
  have a: "current ?fin = None \<longleftrightarrow> quiz_items ?start = []"
    using current_None_iff [OF ok] q by simp
  have b: "0 \<le> index ?fin \<and> index ?fin \<le> int (length (quiz_items ?start)) - 1
         \<and> current ?fin = Some (quiz_items ?start ! nat (index ?fin))"
    if "quiz_items ?start \<noteq> []"
    using ok q that by (cases "quiz_items ?start") (auto simp add: index_ok_def current_def)
  have d: "index ?fin = 0" if "quiz_items ?start = []"
    using ok q that by (simp add: index_ok_def)
  from q a b d show ?thesis by (simp add: Let_def)
qed

theorem current_absent_iff_empty_witness:
  "quiz_items demo_session \<noteq> []
   \<and> current (run_calls [Next, Next, Check_and_record 1, Next] demo_session) = Some q_b
   \<and> index (run_calls [Next, Next, Check_and_record 1, Next] demo_session) = 1"
proof -
  have q: "quiz_items demo_session = [q_a, q_b]" by (simp add: demo_session_eq)
  have i: "index (run_calls [Next, Next, Check_and_record 1, Next] demo_session) = 1"
    by (simp add: demo_session_eq next_q_def check_and_record_def current_def Let_def)
  show ?thesis
    using current_absent_iff_empty [of "\<lambda>i. 0" 5 None False "init_engine [q_a, q_b]"
        "[Next, Next, Check_and_record 1, Next]"] q i
    by (simp add: Let_def demo_session_def [symmetric])
qed

text \<open>The score counts the history entries marked correct, and it never falls.\<close>

lemma score_ok_apply_call: "score_ok s \<Longrightarrow> score_ok (apply_call x s)"
  by (cases x)
    (auto simp add: score_ok_def check_and_record_def next_q_def make_record_def Let_def
      split: option.splits)

lemma score_ok_run_calls: "score_ok s \<Longrightarrow> score_ok (run_calls xs s)"
  by (induction xs arbitrary: s) (simp_all add: score_ok_apply_call)

lemma score_ok_prepare_quiz: "score_ok (prepare_quiz rnd n cat sh e)"
  by (simp add: score_ok_def prepare_quiz_def Let_def)

lemma correct_count_apply_call: "correct_count s \<le> correct_count (apply_call x s)"
  by (cases x) (auto simp add: check_and_record_def next_q_def Let_def split: option.splits)

lemma correct_count_run_calls: "correct_count s \<le> correct_count (run_calls xs s)"
proof (induction xs arbitrary: s)
  case Nil
  show ?case by simp
next
  case (Cons x xs)
  have "correct_count s \<le> correct_count (apply_call x s)"
    by (rule correct_count_apply_call)
  also have "\<dots> \<le> correct_count (run_calls xs (apply_call x s))"
    by (rule Cons.IH)
  finally show ?case by simp
qed

text \<open>
  C5 (score invariant). After \<open>prepare_quiz\<close> and every sequence \<open>xs\<close> of calls,
  correct\_count is the number of history entries whose \<open>is_correct\<close> is true, so it
  is at most \<open>len(history)\<close>; and it is non-decreasing: whatever calls \<open>ys\<close> follow,
  correct\_count after them is at least what it was.
\<close>

theorem score_invariant:
  "correct_count (run_calls xs (prepare_quiz rnd n cat sh e))
     = int (length (filter is_correct (history (run_calls xs (prepare_quiz rnd n cat sh e)))))
   \<and> correct_count (run_calls xs (prepare_quiz rnd n cat sh e))
     \<le> int (length (history (run_calls xs (prepare_quiz rnd n cat sh e))))
   \<and> correct_count (run_calls xs (prepare_quiz rnd n cat sh e))
     \<le> correct_count (run_calls (xs @ ys) (prepare_quiz rnd n cat sh e))"
proof -
  let ?fin = "run_calls xs (prepare_quiz rnd n cat sh e)"
  have ok: "score_ok ?fin"
    by (rule score_ok_run_calls) (rule score_ok_prepare_quiz)
  then have eq: "correct_count ?fin = int (length (filter is_correct (history ?fin)))"
    by (simp add: score_ok_def)
  have "length (filter is_correct (history ?fin)) \<le> length (history ?fin)"
    by (rule length_filter_le)
  with eq have le: "correct_count ?fin \<le> int (length (history ?fin))" by simp
  have mono: "correct_count ?fin
      \<le> correct_count (run_calls (xs @ ys) (prepare_quiz rnd n cat sh e))"
    by (simp add: run_calls_append correct_count_run_calls)
  from eq le mono show ?thesis by blast
qed

theorem score_invariant_witness:
  "correct_count (run_calls [Check_and_record 0, Next, Check_and_record 0] demo_session) = 1
   \<and> length (filter is_correct
        (history (run_calls [Check_and_record 0, Next, Check_and_record 0] demo_session))) = 1"
proof -
  have v: "correct_count (run_calls [Check_and_record 0, Next, Check_and_record 0] demo_session)
      = 1"
    by (simp add: demo_session_eq check_and_record_def current_def next_q_def Let_def
        q_a_def q_b_def)
  show ?thesis
    using score_invariant [of "[Check_and_record 0, Next, Check_and_record 0]" "\<lambda>i. 0" 5 None
        False "init_engine [q_a, q_b]" "[]"] v
    by (simp add: demo_session_def [symmetric])
qed

text \<open>The length of the history, and the answers submitted.\<close>

lemma history_submitted:
  "length (history (run_calls xs s)) = length (history s) + submitted xs s"
proof (induction xs arbitrary: s)
  case Nil
  show ?case by simp
next
  case (Cons x xs)
  show ?case
  proof (cases x)
    case (Check_and_record i)
    then show ?thesis
      using Cons.IH [of "snd (check_and_record i s)"]
      by (auto simp add: check_and_record_def Let_def split: option.splits)
  next
    case Next
    then show ?thesis
      using Cons.IH [of "snd (next_q s)"]
      by (simp add: next_q_def)
  qed
qed

lemma submitted_count:
  "index_ok s \<Longrightarrow>
   submitted xs s = (if quiz_items s = [] then 0 else length (filter is_check xs))"
proof (induction xs arbitrary: s)
  case Nil
  show ?case by simp
next
  case (Cons x xs)
  have ok: "index_ok (apply_call x s)" using Cons.prems by (rule index_ok_apply_call)
  have q: "quiz_items (apply_call x s) = quiz_items s" by (rule quiz_items_apply_call)
  show ?case
  proof (cases x)
    case (Check_and_record i)
    then show ?thesis
      using Cons.IH [OF ok] q current_None_iff [OF Cons.prems] by simp
  next
    case Next
    then show ?thesis
      using Cons.IH [OF ok] q by simp
  qed
qed

lemma disciplined_bound:
  "index_ok s \<Longrightarrow> one_answer_each a xs s \<Longrightarrow>
   int (length (history s)) \<le> index s + (if a then 1 else 0) \<Longrightarrow>
   int (length (history (run_calls xs s))) \<le> index (run_calls xs s) + 1"
proof (induction xs arbitrary: s a)
  case Nil
  then show ?case by (simp split: if_splits)
next
  case (Cons x xs)
  have ok: "index_ok (apply_call x s)" using Cons.prems(1) by (rule index_ok_apply_call)
  show ?case
  proof (cases x)
    case (Check_and_record i)
    with Cons.prems have na: "\<not> a" and d: "one_answer_each True xs (apply_call x s)"
      by simp_all
    have "int (length (history (apply_call x s)))
        \<le> index (apply_call x s) + (if True then 1 else 0)"
      using Cons.prems(3) na Check_and_record
      by (auto simp add: check_and_record_def Let_def split: option.splits)
    from Cons.IH [OF ok d this] show ?thesis by simp
  next
    case Next
    with Cons.prems have d: "one_answer_each (a \<and> \<not> fst (next_q s)) xs (apply_call x s)"
      by simp
    have "int (length (history (apply_call x s)))
        \<le> index (apply_call x s) + (if a \<and> \<not> fst (next_q s) then 1 else 0)"
      using Cons.prems(3) Next
      by (auto simp add: next_q_def split: if_splits)
    from Cons.IH [OF ok d this] show ?thesis by simp
  qed
qed

text \<open>
  C1 (session-history bound), as the code has it. After \<open>prepare_quiz\<close> and every
  sequence \<open>xs\<close> of \<open>check_and_record\<close> and \<open>next\<close> calls, \<open>len(history)\<close> is the
  number of submitted answers: every \<open>check_and_record\<close> call of \<open>xs\<close> when
  \<open>quiz_items\<close> is not empty, none when it is. The engine accepts a second answer at
  the same index, so \<open>len(history)\<close> is not bounded by \<open>len(quiz_items)\<close>; it is when
  the caller submits at most one answer at each position.
\<close>

theorem history_length:
  "(let s0 = prepare_quiz rnd n cat sh e; s = run_calls xs s0 in
      length (history s) = submitted xs s0
    \<and> submitted xs s0 = (if quiz_items s0 = [] then 0 else length (filter is_check xs))
    \<and> (one_answer_each False xs s0 \<longrightarrow> length (history s) \<le> length (quiz_items s0)))"
proof -
  let ?start = "prepare_quiz rnd n cat sh e"
  let ?fin = "run_calls xs ?start"
  have ok0: "index_ok ?start" by (rule index_ok_prepare_quiz)
  have h0: "history ?start = []" by (simp add: prepare_quiz_def Let_def)
  have i0: "index ?start = 0" by (simp add: prepare_quiz_def Let_def)
  have a: "length (history ?fin) = submitted xs ?start"
    using history_submitted [of xs ?start] h0 by simp
  have b: "submitted xs ?start
      = (if quiz_items ?start = [] then 0 else length (filter is_check xs))"
    using ok0 by (rule submitted_count)
  have d: "length (history ?fin) \<le> length (quiz_items ?start)"
    if disc: "one_answer_each False xs ?start"
  proof (cases "quiz_items ?start = []")
    case True
    with a b show ?thesis by simp
  next
    case False
    have "int (length (history ?start)) \<le> index ?start + (if False then 1 else 0)"
      using h0 i0 by simp
    from disciplined_bound [OF ok0 disc this]
    have le: "int (length (history ?fin)) \<le> index ?fin + 1" .
    have "index_ok ?fin" using ok0 by (rule index_ok_run_calls)
    then have "index ?fin \<le> max 0 (int (length (quiz_items ?start)) - 1)"
      by (simp add: index_ok_def quiz_items_run_calls)
    with le False show ?thesis by (cases "quiz_items ?start") simp_all
  qed
  from a b d show ?thesis by (simp add: Let_def)
qed

theorem history_length_witness:
  "one_answer_each False [Check_and_record 0, Next, Check_and_record 0] demo_session
   \<and> length (history (run_calls [Check_and_record 0, Next, Check_and_record 0] demo_session)) = 2
   \<and> length (quiz_items demo_session) = 2"
proof -
  let ?cs = "[Check_and_record 0, Next, Check_and_record 0]"
  have d: "one_answer_each False ?cs demo_session"
    by (simp add: demo_session_eq check_and_record_def current_def next_q_def Let_def)
  have q: "quiz_items demo_session = [q_a, q_b]"
    by (simp add: demo_session_eq)
  have t: "length (history (run_calls ?cs demo_session)) = submitted ?cs demo_session
    \<and> submitted ?cs demo_session
        = (if quiz_items demo_session = [] then 0 else length (filter is_check ?cs))
    \<and> (one_answer_each False ?cs demo_session
        \<longrightarrow> length (history (run_calls ?cs demo_session)) \<le> length (quiz_items demo_session))"
    unfolding demo_session_def by (rule history_length [unfolded Let_def])
  from t q have "length (history (run_calls ?cs demo_session)) = length (filter is_check ?cs)"
    by simp
  then have "length (history (run_calls ?cs demo_session)) = 2"
    by simp
  with d q show ?thesis by simp
qed

text \<open>
  The claim as it is written fails: with one question in the quiz and two answers
  submitted to it, the history has two entries.
\<close>

theorem history_bound_counterexample:
  "\<not> length (history (run_calls [Check_and_record 0, Check_and_record 1]
         (prepare_quiz (\<lambda>i. 0) 1 None False (init_engine [q_a]))))
      \<le> length (quiz_items (run_calls [Check_and_record 0, Check_and_record 1]
         (prepare_quiz (\<lambda>i. 0) 1 None False (init_engine [q_a]))))"
  by (simp add: prepare_quiz_def init_engine_def pool_of_def Let_def check_and_record_def
      current_def)

section \<open>Properties of the recommendation builder\<close>

text \<open>The loop over the history counts the categories and the difficulties of the incorrect records.\<close>

lemma foldl_tally_record:
  "\<exists>rs'. foldl tally_record (a, b, rs) h
     = (count_all a (wrong_cats h), count_all b (wrong_diffs h), rs')"
proof (induction h arbitrary: a b rs)
  case Nil
  show ?case by (simp add: count_all_def wrong_cats_def wrong_diffs_def wrong_records_def)
next
  case (Cons r h)
  show ?case
    using Cons.IH
    by (simp add: tally_record_def count_all_def wrong_cats_def wrong_diffs_def wrong_records_def)
qed

lemma tally_history_eq:
  "\<exists>rs. tally_history h = (count_all [] (wrong_cats h), count_all [] (wrong_diffs h), rs)"
  unfolding tally_history_def by (rule foldl_tally_record)

text \<open>
  A counter filled from a list: its keys are the values of the list in the order they
  are first seen, each with the number of its occurrences.
\<close>

lemma counter_add_map:
  "distinct ks \<Longrightarrow>
   counter_add x (map (\<lambda>k. (k, f k)) ks)
     = (if x \<in> set ks then map (\<lambda>k. (k, if k = x then f k + 1 else f k)) ks
        else map (\<lambda>k. (k, f k)) ks @ [(x, 1)])"
  by (induction ks) auto

lemma seen_order_snoc:
  "seen_order (xs @ [x]) = (if x \<in> set xs then seen_order xs else seen_order xs @ [x])"
  by (simp add: seen_order_def)

lemma set_seen_order: "set (seen_order xs) = set xs"
  by (simp add: seen_order_def)

lemma distinct_seen_order: "distinct (seen_order xs)"
  by (simp add: seen_order_def)

lemma occurrences_snoc:
  "occurrences (xs @ [x]) k = occurrences xs k + (if k = x then 1 else 0)"
  by (simp add: occurrences_def)

lemma occurrences_notin: "x \<notin> set xs \<Longrightarrow> occurrences xs x = 0"
  by (auto simp add: occurrences_def filter_empty_conv)

lemma occurrences_pos: "x \<in> set xs \<Longrightarrow> 0 < occurrences xs x"
  by (auto simp add: occurrences_def filter_empty_conv)

lemma count_all_snoc: "count_all acc (xs @ [x]) = counter_add x (count_all acc xs)"
  by (simp add: count_all_def)

lemma count_all_eq:
  "count_all [] xs = map (\<lambda>k. (k, occurrences xs k)) (seen_order xs)"
proof (induction xs rule: rev_induct)
  case Nil
  show ?case by (simp add: count_all_def seen_order_def)
next
  case (snoc x xs)
  have "count_all [] (xs @ [x]) = counter_add x (map (\<lambda>k. (k, occurrences xs k)) (seen_order xs))"
    by (simp add: count_all_snoc snoc.IH)
  also have "\<dots> = map (\<lambda>k. (k, occurrences (xs @ [x]) k)) (seen_order (xs @ [x]))"
    by (auto simp add: counter_add_map distinct_seen_order set_seen_order seen_order_snoc
        occurrences_snoc occurrences_notin)
  finally show ?case .
qed

text \<open>The keys of the counter stand in the order of their first positions.\<close>

lemma first_seen_snoc_in: "a \<in> set xs \<Longrightarrow> first_seen (xs @ [x]) a = first_seen xs a"
  by (simp add: first_seen_def takeWhile_append1 [where x = a] )

lemma first_seen_less: "a \<in> set xs \<Longrightarrow> first_seen xs a < length xs"
  by (induction xs) (auto simp add: first_seen_def)

lemma first_seen_snoc_new: "x \<notin> set xs \<Longrightarrow> first_seen (xs @ [x]) x = length xs"
  by (induction xs) (auto simp add: first_seen_def)

lemma sorted_wrt_seen_order:
  "sorted_wrt (\<lambda>a b. first_seen xs a < first_seen xs b) (seen_order xs)"
proof (induction xs rule: rev_induct)
  case Nil
  show ?case by (simp add: seen_order_def)
next
  case (snoc x xs)
  have old: "sorted_wrt (\<lambda>a b. first_seen (xs @ [x]) a < first_seen (xs @ [x]) b) (seen_order xs)"
    using snoc.IH
    by (rule sorted_wrt_mono_rel [rotated]) (simp add: set_seen_order first_seen_snoc_in)
  show ?case
  proof (cases "x \<in> set xs")
    case True
    with old show ?thesis by (simp add: seen_order_snoc)
  next
    case False
    have "\<forall>a \<in> set (seen_order xs). first_seen (xs @ [x]) a < first_seen (xs @ [x]) x"
      using False by (simp add: set_seen_order first_seen_snoc_in first_seen_snoc_new first_seen_less)
    with old False show ?thesis
      by (simp add: seen_order_snoc sorted_wrt_append)
  qed
qed

text \<open>
  The stable sort by a key, of a list that some order \<open>T\<close> sorts: the result is
  sorted by the key, and by \<open>T\<close> among equal keys.
\<close>

lemma insort_key_ranked:
  "sorted (map f ys) \<Longrightarrow> sorted_wrt R ys \<Longrightarrow>
   (\<forall>y \<in> set ys. f y < f x \<longrightarrow> R y x) \<Longrightarrow> (\<forall>y \<in> set ys. f x \<le> f y \<longrightarrow> R x y) \<Longrightarrow>
   sorted_wrt R (insort_key f x ys)"
proof (induction ys)
  case Nil
  show ?case by simp
next
  case (Cons y ys)
  show ?case
  proof (cases "f x \<le> f y")
    case True
    have "\<forall>z \<in> set (y # ys). f x \<le> f z"
      using Cons.prems(1) True by auto
    with Cons.prems(2,4) True show ?thesis by simp
  next
    case False
    have tl: "sorted_wrt R (insort_key f x ys)"
      using Cons.prems by (intro Cons.IH) simp_all
    have "R y x" using Cons.prems(3) False by simp
    with tl Cons.prems(2) False show ?thesis
      by (simp add: set_insort_key)
  qed
qed

lemma sort_key_ranked:
  "sorted_wrt T xs \<Longrightarrow>
   sorted_wrt (\<lambda>a b. f a < f b \<or> (f a = f b \<and> T a b)) (sort_key f xs)"
proof (induction xs)
  case Nil
  show ?case by simp
next
  case (Cons x xs)
  from Cons.prems have t: "\<forall>y \<in> set xs. T x y" and s: "sorted_wrt T xs" by simp_all
  show ?case
    unfolding sort_key_simps
  proof (rule insort_key_ranked)
    show "sorted (map f (sort_key f xs))" by (rule sorted_sort_key)
    show "sorted_wrt (\<lambda>a b. f a < f b \<or> (f a = f b \<and> T a b)) (sort_key f xs)"
      using s by (rule Cons.IH)
    show "\<forall>y \<in> set (sort_key f xs). f y < f x \<longrightarrow> (f y < f x \<or> (f y = f x \<and> T y x))"
      by simp
    show "\<forall>y \<in> set (sort_key f xs). f x \<le> f y \<longrightarrow> (f x < f y \<or> (f x = f y \<and> T x y))"
      using t by auto
  qed
qed

lemma sorted_wrt_ranking: "sorted_wrt (ranks_before xs) (ranking xs)"
proof -
  let ?K = "count_all [] xs"
  let ?T = "\<lambda>a b. first_seen xs (fst a) < first_seen xs (fst b)"
  let ?f = "\<lambda>kv. - snd kv"
  have "sorted_wrt ?T ?K"
    using sorted_wrt_seen_order [of xs]
    by (simp add: count_all_eq sorted_wrt_map)
  then have "sorted_wrt (\<lambda>a b. ?f a < ?f b \<or> (?f a = ?f b \<and> ?T a b)) (sort_key ?f ?K)"
    by (rule sort_key_ranked)
  then have "sorted_wrt (\<lambda>a b. ranks_before xs (fst a) (fst b)) (sort_key ?f ?K)"
    by (rule sorted_wrt_mono_rel [rotated]) (auto simp add: count_all_eq ranks_before_def)
  then show ?thesis
    by (simp add: ranking_def sorted_wrt_map)
qed

lemma set_ranking: "set (ranking xs) = set xs"
  by (simp add: ranking_def count_all_eq set_seen_order image_image)

lemma distinct_ranking: "distinct (ranking xs)"
proof -
  have "map fst (count_all [] xs) = seen_order xs"
    by (simp add: count_all_eq comp_def)
  then have "distinct (map fst (count_all [] xs))"
    by (simp add: distinct_seen_order)
  then show ?thesis
    unfolding ranking_def
    by (metis distinct_map distinct_sort set_sort)
qed

lemma length_ranking: "length (ranking xs) = card (set xs)"
  using distinct_card [OF distinct_ranking, of xs] by (simp add: set_ranking)

lemma count_all_Nil_iff: "count_all [] xs = [] \<longleftrightarrow> xs = []"
  by (simp add: count_all_eq seen_order_def)

lemma listed_categories_append:
  "listed_categories (ls @ ls') = listed_categories ls @ listed_categories ls'"
  by (induction ls rule: listed_categories.induct) simp_all

lemma listed_categories_note_lines: "listed_categories (note_lines i rs) = []"
  by (induction rs arbitrary: i) simp_all

lemma listed_categories_topics:
  "listed_categories (concat (map (topic_lines rs) cats)) = cats"
  by (induction cats)
    (simp_all add: topic_lines_def listed_categories_append listed_categories_note_lines)

lemma difficulty_hints_append:
  "difficulty_hints (ls @ ls') = difficulty_hints ls @ difficulty_hints ls'"
  by (induction ls rule: difficulty_hints.induct) simp_all

lemma difficulty_hints_note_lines: "difficulty_hints (note_lines i rs) = []"
  by (induction rs arbitrary: i) simp_all

lemma difficulty_hints_topics:
  "difficulty_hints (concat (map (topic_lines rs) cats)) = []"
  by (induction cats)
    (simp_all add: topic_lines_def difficulty_hints_append difficulty_hints_note_lines)

lemma top_cats_eq: "map fst (most_common n (count_all [] xs)) = take n (ranking xs)"
  by (simp add: most_common_def ranking_def take_map)

lemma ranking_Nil_iff: "ranking xs = [] \<longleftrightarrow> xs = []"
proof -
  have "length (ranking xs) = length (count_all [] xs)"
    by (simp add: ranking_def)
  then have "ranking xs = [] \<longleftrightarrow> count_all [] xs = []"
    by (metis length_0_conv)
  then show ?thesis
    by (simp add: count_all_Nil_iff)
qed

lemma hardest_of_eq: "xs \<noteq> [] \<Longrightarrow> hardest_of (count_all [] xs) = hd (ranking xs)"
proof -
  assume "xs \<noteq> []"
  then have ne: "sort_key (\<lambda>kv. - snd kv) (count_all [] xs) \<noteq> []"
    using ranking_Nil_iff [of xs] by (simp add: ranking_def)
  then show ?thesis
    by (simp add: hardest_of_def most_common_def ranking_def hd_map)
qed

lemma wrong_cats_Nil_iff: "wrong_cats h = [] \<longleftrightarrow> wrong_records h = []"
  by (simp add: wrong_cats_def)

lemma wrong_diffs_Nil_iff: "wrong_diffs h = [] \<longleftrightarrow> wrong_records h = []"
  by (simp add: wrong_diffs_def)

lemma build_recommendations_eq:
  "\<exists>rs. build_recommendations (Some e) =
     (if history e = [] then []
      else if wrong_records (history e) = [] then [Great_job]
      else Focus_heading
           # concat (map (topic_lines rs) (take 3 (ranking (wrong_cats (history e)))))
           @ (if hd (ranking (wrong_diffs (history e))) \<noteq> []
              then [Toughest (hd (ranking (wrong_diffs (history e))))] else []))"
proof -
  obtain rs where t: "tally_history (history e)
      = (count_all [] (wrong_cats (history e)), count_all [] (wrong_diffs (history e)), rs)"
    using tally_history_eq by blast
  have "build_recommendations (Some e) =
     (if history e = [] then []
      else if wrong_records (history e) = [] then [Great_job]
      else Focus_heading
           # concat (map (topic_lines rs) (take 3 (ranking (wrong_cats (history e)))))
           @ (if hd (ranking (wrong_diffs (history e))) \<noteq> []
              then [Toughest (hd (ranking (wrong_diffs (history e))))] else []))"
    by (simp add: build_recommendations_def t count_all_Nil_iff wrong_cats_Nil_iff
        wrong_diffs_Nil_iff top_cats_eq hardest_of_eq Let_def)
  then show ?thesis ..
qed

lemma listed_categories_build:
  "listed_categories (build_recommendations (Some e)) = take 3 (ranking (wrong_cats (history e)))"
proof -
  obtain rs where "build_recommendations (Some e) =
     (if history e = [] then []
      else if wrong_records (history e) = [] then [Great_job]
      else Focus_heading
           # concat (map (topic_lines rs) (take 3 (ranking (wrong_cats (history e)))))
           @ (if hd (ranking (wrong_diffs (history e))) \<noteq> []
              then [Toughest (hd (ranking (wrong_diffs (history e))))] else []))"
    using build_recommendations_eq by blast
  moreover have "ranking (wrong_cats (history e)) = []" if "wrong_records (history e) = []"
    using that by (simp add: ranking_Nil_iff wrong_cats_Nil_iff)
  moreover have "wrong_records (history e) = []" if "history e = []"
    using that by (simp add: wrong_records_def)
  ultimately show ?thesis
    by (auto simp add: listed_categories_append listed_categories_topics)
qed

lemma difficulty_hints_build:
  "wrong_records (history e) \<noteq> [] \<Longrightarrow>
   difficulty_hints (build_recommendations (Some e))
     = (if hd (ranking (wrong_diffs (history e))) = [] then []
        else [hd (ranking (wrong_diffs (history e)))])"
proof -
  assume w: "wrong_records (history e) \<noteq> []"
  then have h: "history e \<noteq> []" by (auto simp add: wrong_records_def)
  obtain rs where "build_recommendations (Some e) =
     (if history e = [] then []
      else if wrong_records (history e) = [] then [Great_job]
      else Focus_heading
           # concat (map (topic_lines rs) (take 3 (ranking (wrong_cats (history e)))))
           @ (if hd (ranking (wrong_diffs (history e))) \<noteq> []
              then [Toughest (hd (ranking (wrong_diffs (history e))))] else []))"
    using build_recommendations_eq by blast
  with w h show ?thesis
    by (simp add: difficulty_hints_append difficulty_hints_topics)
qed

lemma ranking_rest:
  "sorted_wrt (ranks_before xs) (take n (ranking xs)) \<and>
   (\<forall>a \<in> set (take n (ranking xs)). \<forall>b \<in> set xs - set (take n (ranking xs)). ranks_before xs a b)"
proof -
  have s: "sorted_wrt (ranks_before xs) (take n (ranking xs) @ drop n (ranking xs))"
    by (simp add: sorted_wrt_ranking)
  have "set xs = set (take n (ranking xs)) \<union> set (drop n (ranking xs))"
    using set_ranking [of xs] set_append [of "take n (ranking xs)" "drop n (ranking xs)"]
    by simp
  with s show ?thesis
    unfolding sorted_wrt_append by blast
qed

lemma ranks_before_le: "ranks_before xs a b \<Longrightarrow> occurrences xs b \<le> occurrences xs a"
  by (auto simp add: ranks_before_def)

lemma three_ranked:
  assumes d: "distinct [A, B, C]" and s: "set xs = {A, B, C}"
    and o: "occurrences xs A = 3" "occurrences xs B = 1" "occurrences xs C = 2"
  shows "take 3 (ranking xs) = [A, C, B]"
proof -
  have l: "length (ranking xs) = 3"
    using d s by (simp add: length_ranking)
  then have "\<exists>x y z. ranking xs = [x, y, z]"
    by (auto simp add: length_Suc_conv numeral_3_eq_3)
  then obtain x y z where r: "ranking xs = [x, y, z]" by blast
  have m: "{x, y, z} = {A, B, C}"
    using set_ranking [of xs] r s by simp
  have dr: "x \<noteq> y" "y \<noteq> z" "x \<noteq> z"
    using distinct_ranking [of xs] r by simp_all
  have "ranks_before xs x y" "ranks_before xs y z"
    using sorted_wrt_ranking [of xs] r by simp_all
  then have le: "occurrences xs y \<le> occurrences xs x" "occurrences xs z \<le> occurrences xs y"
    by (simp_all add: ranks_before_le)
  have mem: "x \<in> {A, B, C}" "y \<in> {A, B, C}" "z \<in> {A, B, C}"
    using m by auto
  have "x = A"
    using mem dr le o by auto
  moreover have "z = B"
    using mem dr le o by auto
  moreover have "y = C"
    using mem dr le o by auto
  ultimately show ?thesis using r by simp
qed

subsection \<open>The claims about the builder\<close>

lemma demo_finished_history:
  "map (\<lambda>r. (is_correct r, rec_category r, rec_difficulty r)) (history demo_finished)
     = [(False, ''B'', ''hard''), (False, ''A'', ''easy''), (False, ''C'', ''hard''),
        (False, ''A'', ''easy''), (False, ''C'', ''easy''), (False, ''A'', ''hard''),
        (True, ''A'', ''easy'')]"
  by (simp add: demo_finished_def prepare_quiz_def init_engine_def pool_of_def Let_def
      check_and_record_def current_def next_q_def make_record_def mk_question_def)

lemma demo_finished_wrong_cats:
  "wrong_cats (history demo_finished) = [''B'', ''A'', ''C'', ''A'', ''C'', ''A'']"
  by (simp add: demo_finished_def prepare_quiz_def init_engine_def pool_of_def Let_def
      check_and_record_def current_def next_q_def make_record_def mk_question_def
      wrong_cats_def wrong_records_def)

lemma demo_finished_wrong_diffs:
  "wrong_diffs (history demo_finished) = [''hard'', ''easy'', ''hard'', ''easy'', ''easy'', ''hard'']"
  by (simp add: demo_finished_def prepare_quiz_def init_engine_def pool_of_def Let_def
      check_and_record_def current_def next_q_def make_record_def mk_question_def
      wrong_diffs_def wrong_records_def)

text \<open>
  C6 (recommendation ranking). For every engine state, with \<open>ws\<close> the categories of
  the incorrect records of its history, the categories the builder lists are the first
  three (all, when there are fewer) of the ranking of the categories of \<open>ws\<close>: they
  are distinct categories of incorrect records, at most three, ordered by
  incorrect-answer count descending and, among equal counts, by the position of the
  first incorrect record of the category; every category of an incorrect record that
  is not listed ranks after every listed one. In particular, when the incorrect counts
  are A: 3, B: 1, C: 2, the listed order is A, C, B.
\<close>

theorem recommendation_ranking:
  "(let ws = wrong_cats (history e);
        top = listed_categories (build_recommendations (Some e)) in
      length top = min 3 (card (set ws))
    \<and> distinct top \<and> set top \<subseteq> set ws
    \<and> sorted_wrt (ranks_before ws) top
    \<and> (\<forall>a \<in> set top. \<forall>b \<in> set ws - set top. ranks_before ws a b)
    \<and> (distinct [A, B, C] \<and> set ws = {A, B, C} \<and> occurrences ws A = 3
        \<and> occurrences ws B = 1 \<and> occurrences ws C = 2 \<longrightarrow> top = [A, C, B]))"
proof -
  let ?ws = "wrong_cats (history e)"
  let ?top = "take 3 (ranking ?ws)"
  have 1: "length ?top = min 3 (card (set ?ws))"
    by (simp add: length_ranking min.commute)
  have 2: "distinct ?top"
    by (simp add: distinct_ranking)
  have 3: "set ?top \<subseteq> set ?ws"
    using set_take_subset [of 3 "ranking ?ws"] by (simp add: set_ranking)
  have 4: "sorted_wrt (ranks_before ?ws) ?top"
    and 5: "\<forall>a \<in> set ?top. \<forall>b \<in> set ?ws - set ?top. ranks_before ?ws a b"
    using ranking_rest [of ?ws 3] by simp_all
  have 6: "?top = [A, C, B]"
    if "distinct [A, B, C] \<and> set ?ws = {A, B, C} \<and> occurrences ?ws A = 3
        \<and> occurrences ?ws B = 1 \<and> occurrences ?ws C = 2"
    using that by (intro three_ranked) simp_all
  from 1 2 3 4 5 6 show ?thesis
    unfolding Let_def listed_categories_build by blast
qed

theorem recommendation_ranking_witness:
  "wrong_cats (history demo_finished) = [''B'', ''A'', ''C'', ''A'', ''C'', ''A'']
   \<and> listed_categories (build_recommendations (Some demo_finished)) = [''A'', ''C'', ''B'']"
proof -
  let ?ws = "wrong_cats (history demo_finished)"
  have ws: "?ws = [''B'', ''A'', ''C'', ''A'', ''C'', ''A'']"
    by (rule demo_finished_wrong_cats)
  have h: "distinct [''A'', ''B'', ''C''] \<and> set ?ws = {''A'', ''B'', ''C''}
      \<and> occurrences ?ws ''A'' = 3 \<and> occurrences ?ws ''B'' = 1 \<and> occurrences ?ws ''C'' = 2"
    unfolding ws by (auto simp add: occurrences_def)
  from recommendation_ranking [of demo_finished "''A''" "''B''" "''C''"] h
  have "listed_categories (build_recommendations (Some demo_finished)) = [''A'', ''C'', ''B'']"
    unfolding Let_def by blast
  with ws show ?thesis by simp
qed

text \<open>
  C7 (difficulty hint), as the code has it. For every history with at least one
  incorrect record there is one most frequent difficulty level \<open>d\<close> among the
  incorrect records (it occurs at least as often as every other level, and is first
  seen before every other level that occurs as often). The builder reports \<open>d\<close> as
  the hint, and nothing else, when \<open>d\<close> is a non-empty string; when \<open>d\<close> is the
  empty string (the level of a question loaded without a difficulty) the condition
  \<open>if hardest\<close> drops the hint.
\<close>

theorem difficulty_hint:
  "wrong_records (history e) \<noteq> [] \<Longrightarrow>
   (let ds = wrong_diffs (history e) in
      \<exists>d. d \<in> set ds \<and> (\<forall>d' \<in> set ds. d' \<noteq> d \<longrightarrow> ranks_before ds d d')
        \<and> difficulty_hints (build_recommendations (Some e)) = (if d = [] then [] else [d]))"
proof -
  assume w: "wrong_records (history e) \<noteq> []"
  let ?ds = "wrong_diffs (history e)"
  have "ranking ?ds \<noteq> []"
    using w by (simp add: ranking_Nil_iff wrong_diffs_Nil_iff)
  then obtain d rest where r: "ranking ?ds = d # rest"
    by (cases "ranking ?ds") simp_all
  have s: "set ?ds = insert d (set rest)"
    using set_ranking [of ?ds] r by simp
  have a: "d \<in> set ?ds" using s by simp
  have "\<forall>b \<in> set rest. ranks_before ?ds d b"
    using sorted_wrt_ranking [of ?ds] r by simp
  with s have b: "\<forall>d' \<in> set ?ds. d' \<noteq> d \<longrightarrow> ranks_before ?ds d d'"
    by auto
  have c: "difficulty_hints (build_recommendations (Some e)) = (if d = [] then [] else [d])"
    using difficulty_hints_build [OF w] r by simp
  from a b c show ?thesis
    unfolding Let_def by blast
qed

theorem difficulty_hint_witness:
  "wrong_records (history demo_finished) \<noteq> []
   \<and> wrong_diffs (history demo_finished)
       = [''hard'', ''easy'', ''hard'', ''easy'', ''easy'', ''hard'']
   \<and> difficulty_hints (build_recommendations (Some demo_finished)) = [''hard'']"
proof -
  let ?ds = "wrong_diffs (history demo_finished)"
  have ds: "?ds = [''hard'', ''easy'', ''hard'', ''easy'', ''easy'', ''hard'']"
    by (rule demo_finished_wrong_diffs)
  have w: "wrong_records (history demo_finished) \<noteq> []"
    using ds by (auto simp add: wrong_diffs_def)
  from difficulty_hint [OF w] obtain d where
    m: "d \<in> set ?ds" and
    r: "\<forall>d' \<in> set ?ds. d' \<noteq> d \<longrightarrow> ranks_before ?ds d d'" and
    o: "difficulty_hints (build_recommendations (Some demo_finished)) = (if d = [] then [] else [d])"
    unfolding Let_def by blast
  have "\<not> ranks_before ?ds ''easy'' ''hard''"
    unfolding ds by (simp add: ranks_before_def occurrences_def first_seen_def)
  with m r have "d = ''hard''"
    unfolding ds by auto
  with o w ds show ?thesis by simp
qed

text \<open>
  The claim as it is written fails: the one incorrect record has the empty difficulty,
  and the output has the topic and no hint.
\<close>

theorem difficulty_hint_counterexample:
  "wrong_records (history blank_finished) \<noteq> []
   \<and> build_recommendations (Some blank_finished)
       = [Focus_heading, Topic ''General'', Note 1 ''why'']
   \<and> difficulty_hints (build_recommendations (Some blank_finished)) = []"
  by (simp add: blank_finished_def prepare_quiz_def init_engine_def pool_of_def Let_def
      check_and_record_def current_def make_record_def mk_question_def wrong_records_def
      build_recommendations_def tally_history_def tally_record_def most_common_def
      hardest_of_def topic_lines_def dd_get_def)

text \<open>
  C8 (congratulatory message), as the code has it. For every non-empty history with no
  incorrect record the builder returns the congratulatory message alone, so no topic
  is listed. For the empty history, and when no engine is loaded, the first \<open>return\<close>
  gives the empty string.
\<close>

theorem congratulation:
  "(history e \<noteq> [] \<and> wrong_records (history e) = []
      \<longrightarrow> build_recommendations (Some e) = [Great_job])
   \<and> (history e = [] \<longrightarrow> build_recommendations (Some e) = [])
   \<and> build_recommendations None = []"
proof -
  obtain rs where eq: "build_recommendations (Some e) =
     (if history e = [] then []
      else if wrong_records (history e) = [] then [Great_job]
      else Focus_heading
           # concat (map (topic_lines rs) (take 3 (ranking (wrong_cats (history e)))))
           @ (if hd (ranking (wrong_diffs (history e))) \<noteq> []
              then [Toughest (hd (ranking (wrong_diffs (history e))))] else []))"
    using build_recommendations_eq by blast
  have a: "build_recommendations (Some e) = [Great_job]"
    if "history e \<noteq> [] \<and> wrong_records (history e) = []"
    using that by (simp add: eq)
  have b: "build_recommendations (Some e) = []" if "history e = []"
    using that by (simp add: eq)
  have c: "build_recommendations None = []"
    by (simp add: build_recommendations_def)
  from a b c show ?thesis by blast
qed

theorem congratulation_witness:
  "history (run_calls [Check_and_record 0, Next, Check_and_record 1] demo_session) \<noteq> []
   \<and> wrong_records (history (run_calls [Check_and_record 0, Next, Check_and_record 1] demo_session))
       = []
   \<and> build_recommendations
        (Some (run_calls [Check_and_record 0, Next, Check_and_record 1] demo_session))
       = [Great_job]"
proof -
  let ?e = "run_calls [Check_and_record 0, Next, Check_and_record 1] demo_session"
  have h: "history ?e \<noteq> [] \<and> wrong_records (history ?e) = []"
    by (simp add: demo_session_eq check_and_record_def current_def next_q_def Let_def
        make_record_def wrong_records_def q_a_def q_b_def)
  with congratulation [of ?e] show ?thesis by blast
qed

text \<open>
  The claim as it is written fails: a session in which nothing was submitted has no
  incorrect record, and the builder returns the empty string.
\<close>

theorem congratulation_counterexample:
  "wrong_records (history demo_session) = []
   \<and> build_recommendations (Some demo_session) = []
   \<and> build_recommendations (Some demo_session) \<noteq> [Great_job]"
  by (simp add: demo_session_eq wrong_records_def build_recommendations_def)

section \<open>Properties of the double-precision numbers\<close>

subsection \<open>Powers of two and the quantum of a number\<close>

lemma pow2_powr: "pow2 k = 2 powr (of_int k)"
proof (cases "0 \<le> k")
  case True
  then show ?thesis
    by (simp add: pow2_def powr_realpow [symmetric])
next
  case False
  then have "pow2 k = 1 / 2 ^ nat (- k)" by (simp add: pow2_def)
  also have "\<dots> = 1 / 2 powr (real (nat (- k)))"
    by (simp add: powr_realpow)
  also have "\<dots> = 2 powr (- real (nat (- k)))"
    by (simp add: powr_minus_divide)
  also have "- real (nat (- k)) = of_int k"
    using False by simp
  finally show ?thesis .
qed

lemma pow2_pos: "0 < pow2 k"
  by (simp add: pow2_powr)

lemma pow2_add: "pow2 (j + k) = pow2 j * pow2 k"
  by (simp add: pow2_powr powr_add)

lemma pow2_mono: "j \<le> k \<Longrightarrow> pow2 j \<le> pow2 k"
  by (simp add: pow2_powr)

lemma pow2_nat: "pow2 (int n) = 2 ^ n"
  by (simp add: pow2_def)

lemma pow2_0: "pow2 0 = 1"
  by (simp add: pow2_def)

lemma pow2_diff: "q \<le> k \<Longrightarrow> pow2 k = 2 ^ nat (k - q) * pow2 q"
proof -
  assume "q \<le> k"
  then have "pow2 k = pow2 (int (nat (k - q)) + q)" by simp
  also have "\<dots> = pow2 (int (nat (k - q))) * pow2 q" by (rule pow2_add)
  finally show ?thesis by (simp only: pow2_nat)
qed

lemma quantum_from_props:
  "a < pow2 (q + int n + 53) \<Longrightarrow>
   q \<le> quantum_from n q a \<and> quantum_from n q a \<le> q + int n
   \<and> a < pow2 (quantum_from n q a + 53)
   \<and> (quantum_from n q a = q \<or> pow2 (quantum_from n q a + 52) \<le> a)"
proof (induction n arbitrary: q)
  case 0
  then show ?case by simp
next
  case (Suc n)
  show ?case
  proof (cases "a < pow2 (q + 53)")
    case True
    then show ?thesis by simp
  next
    case False
    have "a < pow2 (q + 1 + int n + 53)"
      using Suc.prems by (simp add: add.commute add.left_commute)
    from Suc.IH [OF this]
    have ih: "q + 1 \<le> quantum_from n (q + 1) a" "quantum_from n (q + 1) a \<le> q + 1 + int n"
      "a < pow2 (quantum_from n (q + 1) a + 53)"
      "quantum_from n (q + 1) a = q + 1 \<or> pow2 (quantum_from n (q + 1) a + 52) \<le> a"
      by simp_all
    have "pow2 (quantum_from n (q + 1) a + 52) \<le> a"
    proof (cases "quantum_from n (q + 1) a = q + 1")
      case True
      then have "quantum_from n (q + 1) a + 52 = q + 53" by simp
      then have "pow2 (quantum_from n (q + 1) a + 52) = pow2 (q + 53)" by (rule arg_cong)
      with False show ?thesis by simp
    next
      case False
      with ih(4) show ?thesis by simp
    qed
    with ih False show ?thesis by simp
  qed
qed

lemma quantum_props:
  assumes "\<bar>x\<bar> < pow2 1024"
  shows "- 1074 \<le> quantum x" "quantum x \<le> 971" "\<bar>x\<bar> < pow2 (quantum x + 53)"
    "quantum x = - 1074 \<or> pow2 (quantum x + 52) \<le> \<bar>x\<bar>"
proof -
  have "\<bar>x\<bar> < pow2 (- 1074 + int 2045 + 53)" using assms by simp
  from quantum_from_props [OF this]
  show "- 1074 \<le> quantum x" "quantum x \<le> 971" "\<bar>x\<bar> < pow2 (quantum x + 53)"
    "quantum x = - 1074 \<or> pow2 (quantum x + 52) \<le> \<bar>x\<bar>"
    by (simp_all add: quantum_def)
qed

lemma quantum_least:
  assumes "- 1074 \<le> k" "k \<le> 971" "\<bar>x\<bar> < pow2 (k + 53)"
  shows "quantum x \<le> k"
proof (rule ccontr)
  assume "\<not> quantum x \<le> k"
  then have g: "k < quantum x" by simp
  have "pow2 (k + 53) \<le> pow2 1024" using assms(2) by (intro pow2_mono) simp
  with assms(3) have b: "\<bar>x\<bar> < pow2 1024" by simp
  from g assms(1) have "quantum x \<noteq> - 1074" by simp
  with quantum_props(4) [OF b] have "pow2 (quantum x + 52) \<le> \<bar>x\<bar>" by simp
  moreover have "pow2 (k + 53) \<le> pow2 (quantum x + 52)" using g by (intro pow2_mono) simp
  ultimately show False using assms(3) by simp
qed

lemma quantum_eq:
  assumes "- 1074 \<le> k" "k \<le> 971" "\<bar>x\<bar> < pow2 (k + 53)"
    and "k = - 1074 \<or> pow2 (k + 52) \<le> \<bar>x\<bar>"
  shows "quantum x = k"
proof -
  have le: "quantum x \<le> k" using assms(1-3) by (rule quantum_least)
  have "pow2 (k + 53) \<le> pow2 1024" using assms(2) by (intro pow2_mono) simp
  with assms(3) have b: "\<bar>x\<bar> < pow2 1024" by simp
  have "\<not> quantum x < k"
  proof
    assume l: "quantum x < k"
    with quantum_props(1) [OF b] have "k \<noteq> - 1074" by simp
    with assms(4) have "pow2 (k + 52) \<le> \<bar>x\<bar>" by simp
    moreover have "pow2 (quantum x + 53) \<le> pow2 (k + 52)" using l by (intro pow2_mono) simp
    ultimately show False using quantum_props(3) [OF b] by simp
  qed
  with le show ?thesis by simp
qed

subsection \<open>Rounding to the nearest double\<close>

lemma pow2_numeral: "pow2 (numeral n) = 2 ^ numeral n"
  by (simp add: pow2_def)

lemma rne_error: "\<bar>of_int (rne y) - y\<bar> \<le> 1 / 2"
proof -
  have "of_int \<lfloor>y\<rfloor> \<le> y" "y < of_int \<lfloor>y\<rfloor> + 1" by linarith+
  then show ?thesis
    by (auto simp add: rne_def Let_def)
qed

lemma rne_le: "y \<le> of_int k \<Longrightarrow> rne y \<le> k"
proof -
  assume a: "y \<le> of_int k"
  then have f: "\<lfloor>y\<rfloor> \<le> k" by (simp add: floor_le_iff)
  show ?thesis
  proof (cases "\<lfloor>y\<rfloor> = k")
    case True
    with a have "y = of_int \<lfloor>y\<rfloor>" by linarith
    then have "y - of_int \<lfloor>y\<rfloor> = 0" by simp
    then show ?thesis using True by (simp add: rne_def Let_def)
  next
    case False
    with f have "\<lfloor>y\<rfloor> + 1 \<le> k" by simp
    then show ?thesis by (auto simp add: rne_def Let_def)
  qed
qed

lemma rne_ge: "of_int k \<le> y \<Longrightarrow> k \<le> rne y"
proof -
  assume "of_int k \<le> y"
  then have "k \<le> \<lfloor>y\<rfloor>" by (simp add: le_floor_iff)
  then show ?thesis by (auto simp add: rne_def Let_def)
qed

lemma rne_of_int: "rne (of_int k) = k"
  by (simp add: rne_def)

lemma nearest_error:
  "\<bar>nearest x - x\<bar> \<le> pow2 (quantum x) / 2"
proof -
  let ?u = "pow2 (quantum x)"
  have u: "0 < ?u" by (rule pow2_pos)
  have "nearest x - x = (of_int (rne (x / ?u)) - x / ?u) * ?u"
    using u by (simp add: nearest_def algebra_simps)
  then have "\<bar>nearest x - x\<bar> = \<bar>of_int (rne (x / ?u)) - x / ?u\<bar> * ?u"
    using u by (simp add: abs_mult)
  also have "\<dots> \<le> (1 / 2) * ?u"
    using u rne_error [of "x / ?u"] by (intro mult_right_mono) simp_all
  finally show ?thesis by simp
qed

lemma nearest_nonneg: "0 \<le> x \<Longrightarrow> 0 \<le> nearest x"
proof -
  assume "0 \<le> x"
  then have "of_int 0 \<le> x / pow2 (quantum x)"
    using pow2_pos [of "quantum x"] by simp
  then have "0 \<le> rne (x / pow2 (quantum x))" by (rule rne_ge)
  then show ?thesis
    using pow2_pos [of "quantum x"] by (simp add: nearest_def)
qed

lemma nearest_0: "nearest 0 = 0"
  by (simp add: nearest_def rne_def)

text \<open>A representable number is a whole multiple of every smaller power of two down to the quantum.\<close>

lemma nearest_le_representable:
  assumes r: "representable y" and x: "0 \<le> x" "x \<le> y"
  shows "nearest x \<le> y"
proof -
  from r obtain m k where y: "y = of_int m * pow2 k" and m: "\<bar>m\<bar> < 2 ^ 53"
    and k: "- 1074 \<le> k" "k \<le> 971"
    unfolding representable_def by blast
  let ?q = "quantum x"
  have "\<bar>y\<bar> = \<bar>of_int m\<bar> * pow2 k"
    using pow2_pos [of k] by (simp add: y abs_mult)
  also have "\<dots> < 2 ^ 53 * pow2 k"
  proof (rule mult_strict_right_mono)
    have "\<bar>real_of_int m\<bar> = of_int \<bar>m\<bar>" by simp
    also have "\<dots> < of_int (2 ^ 53)" using m by (simp only: of_int_less_iff)
    finally show "\<bar>real_of_int m\<bar> < 2 ^ 53" by simp
    show "0 < pow2 k" by (rule pow2_pos)
  qed
  also have "\<dots> = pow2 (k + 53)"
    by (simp add: pow2_add pow2_numeral)
  finally have "\<bar>y\<bar> < pow2 (k + 53)" .
  with x have "\<bar>x\<bar> < pow2 (k + 53)" by simp
  with k have qk: "?q \<le> k" by (intro quantum_least)
  then have "pow2 k = 2 ^ nat (k - ?q) * pow2 ?q" by (rule pow2_diff)
  then have yM: "y = of_int (m * 2 ^ nat (k - ?q)) * pow2 ?q"
    by (simp add: y)
  have "x / pow2 ?q \<le> of_int (m * 2 ^ nat (k - ?q))"
    using x(2) pow2_pos [of ?q] by (simp add: yM pos_divide_le_eq)
  then have "rne (x / pow2 ?q) \<le> m * 2 ^ nat (k - ?q)" by (rule rne_le)
  then have "real_of_int (rne (x / pow2 ?q)) \<le> of_int (m * 2 ^ nat (k - ?q))"
    by (simp only: of_int_le_iff)
  then have "of_int (rne (x / pow2 ?q)) * pow2 ?q \<le> of_int (m * 2 ^ nat (k - ?q)) * pow2 ?q"
    using pow2_pos [of ?q] by (intro mult_right_mono) simp_all
  then show ?thesis
    by (simp only: nearest_def yM [symmetric])
qed

lemma representable_bound:
  assumes "representable y"
  shows "\<exists>m k. y = of_int m * pow2 k \<and> - 1074 \<le> k \<and> k \<le> 971 \<and> \<bar>y\<bar> < pow2 (k + 53)"
proof -
  from assms obtain m k where y: "y = of_int m * pow2 k" and m: "\<bar>m\<bar> < 2 ^ 53"
    and k: "- 1074 \<le> k" "k \<le> 971"
    unfolding representable_def by blast
  have "\<bar>y\<bar> = \<bar>of_int m\<bar> * pow2 k"
    using pow2_pos [of k] by (simp add: y abs_mult)
  also have "\<dots> < 2 ^ 53 * pow2 k"
  proof (rule mult_strict_right_mono)
    have "\<bar>real_of_int m\<bar> = of_int \<bar>m\<bar>" by simp
    also have "\<dots> < of_int (2 ^ 53)" using m by (simp only: of_int_less_iff)
    finally show "\<bar>real_of_int m\<bar> < 2 ^ 53" by simp
    show "0 < pow2 k" by (rule pow2_pos)
  qed
  also have "\<dots> = pow2 (k + 53)"
    by (simp add: pow2_add pow2_numeral)
  finally have "\<bar>y\<bar> < pow2 (k + 53)" .
  with y k show ?thesis by blast
qed

lemma nearest_ge_representable:
  assumes r: "representable y" and x: "0 \<le> y" "y \<le> x" "x < pow2 1024"
  shows "y \<le> nearest x"
proof -
  from representable_bound [OF r] obtain m k where y: "y = of_int m * pow2 k"
    and k: "- 1074 \<le> k" "k \<le> 971" and b: "\<bar>y\<bar> < pow2 (k + 53)"
    by blast
  let ?q = "quantum x"
  have ax: "\<bar>x\<bar> < pow2 1024" using x by simp
  show ?thesis
  proof (cases "?q \<le> k")
    case True
    then have "pow2 k = 2 ^ nat (k - ?q) * pow2 ?q" by (rule pow2_diff)
    then have yM: "y = of_int (m * 2 ^ nat (k - ?q)) * pow2 ?q"
      by (simp add: y)
    have "of_int (m * 2 ^ nat (k - ?q)) \<le> x / pow2 ?q"
      using x(2) pow2_pos [of ?q] by (simp add: yM pos_le_divide_eq)
    then have "m * 2 ^ nat (k - ?q) \<le> rne (x / pow2 ?q)" by (rule rne_ge)
    then have "real_of_int (m * 2 ^ nat (k - ?q)) \<le> of_int (rne (x / pow2 ?q))"
      by (simp only: of_int_le_iff)
    then have "of_int (m * 2 ^ nat (k - ?q)) * pow2 ?q \<le> of_int (rne (x / pow2 ?q)) * pow2 ?q"
      using pow2_pos [of ?q] by (intro mult_right_mono) simp_all
    then show ?thesis
      by (simp only: nearest_def yM [symmetric])
  next
    case False
    then have kq: "k < ?q" by simp
    with k(1) have "?q \<noteq> - 1074" by simp
    with quantum_props(4) [OF ax] have low: "pow2 (?q + 52) \<le> x" using x by simp
    have e: "pow2 (?q + 52) = of_int (2 ^ 52) * pow2 ?q"
      by (simp add: pow2_add pow2_numeral)
    have "of_int (2 ^ 52) \<le> x / pow2 ?q"
      using low pow2_pos [of ?q] by (simp only: e pos_le_divide_eq)
    then have "2 ^ 52 \<le> rne (x / pow2 ?q)" by (rule rne_ge)
    then have "real_of_int (2 ^ 52) \<le> of_int (rne (x / pow2 ?q))"
      by (simp only: of_int_le_iff)
    then have "of_int (2 ^ 52) * pow2 ?q \<le> of_int (rne (x / pow2 ?q)) * pow2 ?q"
      using pow2_pos [of ?q] by (intro mult_right_mono) simp_all
    then have "pow2 (?q + 52) \<le> nearest x"
      by (simp only: nearest_def e)
    moreover have "pow2 (k + 53) \<le> pow2 (?q + 52)"
      using kq by (intro pow2_mono) simp
    ultimately show ?thesis using b by simp
  qed
qed

lemma nearest_representable:
  assumes "representable y" "0 \<le> y"
  shows "nearest y = y"
proof -
  from representable_bound [OF assms(1)] obtain m k where
    k: "k \<le> 971" and b: "\<bar>y\<bar> < pow2 (k + 53)"
    by blast
  have "pow2 (k + 53) \<le> pow2 1024" using k by (intro pow2_mono) simp
  with b assms(2) have "y < pow2 1024" by simp
  with assms have "y \<le> nearest y" by (intro nearest_ge_representable) simp_all
  moreover have "nearest y \<le> y" using assms by (intro nearest_le_representable) simp_all
  ultimately show ?thesis by simp
qed

lemma quantum_bound:
  assumes "\<bar>x\<bar> < pow2 1024"
  shows "pow2 (quantum x) \<le> \<bar>x\<bar> + 1"
proof (cases "quantum x = - 1074")
  case True
  have "pow2 (- 1074) \<le> pow2 0" by (intro pow2_mono) simp
  then show ?thesis using True by (simp add: pow2_0)
next
  case False
  with quantum_props(4) [OF assms] have "pow2 (quantum x + 52) \<le> \<bar>x\<bar>" by simp
  moreover have "pow2 (quantum x) \<le> pow2 (quantum x + 52)" by (intro pow2_mono) simp
  ultimately show ?thesis by simp
qed

lemma nearest_crude:
  assumes "\<bar>x\<bar> < pow2 1024"
  shows "\<bar>nearest x\<bar> \<le> 2 * \<bar>x\<bar> + 1"
proof -
  have "\<bar>nearest x\<bar> \<le> \<bar>nearest x - x\<bar> + \<bar>x\<bar>" by simp
  also have "\<dots> \<le> pow2 (quantum x) / 2 + \<bar>x\<bar>"
    using nearest_error [of x] by simp
  also have "\<dots> \<le> (\<bar>x\<bar> + 1) / 2 + \<bar>x\<bar>"
    using quantum_bound [OF assms] by simp
  finally have "\<bar>nearest x\<bar> \<le> (\<bar>x\<bar> + 1) / 2 + \<bar>x\<bar>" .
  moreover have "(\<bar>x\<bar> + 1) / 2 + \<bar>x\<bar> \<le> 2 * \<bar>x\<bar> + 1"
    by (simp add: field_simps)
  ultimately show ?thesis by (rule order_trans)
qed

lemma overflow_bound_ge: "pow2 1023 \<le> overflow_bound"
proof -
  have "pow2 1024 = 2 * pow2 1023"
    using pow2_add [of 1 1023] by (simp add: pow2_def)
  moreover have "pow2 970 \<le> pow2 1023" by (intro pow2_mono) simp
  ultimately show ?thesis by (simp add: overflow_bound_def)
qed

lemma overflow_bound_less: "overflow_bound < pow2 1024"
  using pow2_pos [of 970] by (simp add: overflow_bound_def)

lemma round64_Fin: "\<bar>x\<bar> < overflow_bound \<Longrightarrow> round64 x = Fin (nearest x)"
  by (simp add: round64_def)

lemma round64_0: "round64 0 = Fin 0"
  using pow2_pos [of 1023] overflow_bound_ge by (simp add: round64_def nearest_0)

subsection \<open>The magnitude of the result of an operation\<close>

text \<open>
  A result of magnitude below \<open>2^1003\<close> is finite: the operations on finite values
  of bounded magnitude give finite values, of a magnitude bounded in turn.
\<close>

lemma lev_mono: "lev j v \<Longrightarrow> j \<le> k \<Longrightarrow> lev k v"
proof (cases v)
  case (Fin x)
  assume l: "lev j v" and jk: "j \<le> k"
  from jk have "(2::real) ^ j \<le> 2 ^ k" by (intro power_increasing) simp_all
  moreover from l Fin have "\<bar>x\<bar> \<le> 2 ^ j" by simp
  ultimately have "\<bar>x\<bar> \<le> 2 ^ k" by (rule order_trans [rotated])
  then show ?thesis using Fin by simp
qed simp_all

lemma round64_lev:
  assumes "\<bar>z\<bar> \<le> 2 ^ n" "n \<le> 1001"
  shows "lev (n + 2) (round64 z)"
proof -
  have "(2::real) ^ n = pow2 (int n)" by (simp add: pow2_nat)
  also have "\<dots> \<le> pow2 1001" using assms(2) by (intro pow2_mono) simp
  also have "\<dots> < pow2 1023"
  proof -
    have "pow2 1023 = pow2 22 * pow2 1001" using pow2_add [of 22 1001] by simp
    moreover have "1 < pow2 22" by (simp add: pow2_def)
    ultimately show ?thesis using pow2_pos [of 1001] by simp
  qed
  finally have small: "(2::real) ^ n < pow2 1023" .
  with assms(1) overflow_bound_ge have lt: "\<bar>z\<bar> < overflow_bound" by simp
  with overflow_bound_less have "\<bar>z\<bar> < pow2 1024" by simp
  then have "\<bar>nearest z\<bar> \<le> 2 * \<bar>z\<bar> + 1" by (rule nearest_crude)
  also have "\<dots> \<le> 2 * 2 ^ n + 1" using assms(1) by simp
  also have "\<dots> \<le> 2 ^ (n + 2)"
  proof -
    have "(1::real) \<le> 2 ^ n" by simp
    then have "2 * 2 ^ n + 1 \<le> 4 * (2::real) ^ n" by linarith
    then show ?thesis by (simp add: power_add)
  qed
  finally show ?thesis using lt by (simp add: round64_Fin)
qed

lemma lev_fadd:
  assumes "lev k a" "lev k b" "k \<le> 1000"
  shows "lev (k + 3) (fadd a b)"
proof -
  from assms(1) obtain x where a: "a = Fin x" and x: "\<bar>x\<bar> \<le> 2 ^ k" by (cases a) simp_all
  from assms(2) obtain y where b: "b = Fin y" and y: "\<bar>y\<bar> \<le> 2 ^ k" by (cases b) simp_all
  have "\<bar>x + y\<bar> \<le> 2 ^ (k + 1)" using x y by simp
  then have "lev (k + 1 + 2) (round64 (x + y))"
    using assms(3) by (intro round64_lev) simp_all
  then show ?thesis by (simp add: a b numeral_3_eq_3)
qed

lemma lev_fneg: "lev k a \<Longrightarrow> lev k (fneg a)"
  by (cases a) simp_all

lemma lev_fsub: "lev k a \<Longrightarrow> lev k b \<Longrightarrow> k \<le> 1000 \<Longrightarrow> lev (k + 3) (fsub a b)"
  unfolding fsub_def by (intro lev_fadd lev_fneg)

lemma lev_fmul:
  assumes "lev j a" "lev k b" "j + k \<le> 1001"
  shows "lev (j + k + 2) (fmul a b)"
proof -
  from assms(1) obtain x where a: "a = Fin x" and x: "\<bar>x\<bar> \<le> 2 ^ j" by (cases a) simp_all
  from assms(2) obtain y where b: "b = Fin y" and y: "\<bar>y\<bar> \<le> 2 ^ k" by (cases b) simp_all
  have "\<bar>x * y\<bar> = \<bar>x\<bar> * \<bar>y\<bar>" by (rule abs_mult)
  also have "\<dots> \<le> 2 ^ j * 2 ^ k" using x y by (intro mult_mono) simp_all
  finally have "\<bar>x * y\<bar> \<le> 2 ^ (j + k)" by (simp add: power_add)
  then have "lev (j + k + 2) (round64 (x * y))"
    using assms(3) by (rule round64_lev)
  then show ?thesis by (simp add: a b)
qed

lemma lev_add:
  assumes "lev j a" "lev k b" "j + 3 \<le> n" "k + 3 \<le> n" "n \<le> 1003"
  shows "lev n (fadd a b)"
proof -
  have "lev (n - 3) a" using assms(1) by (rule lev_mono) (use assms in simp)
  moreover have "lev (n - 3) b" using assms(2) by (rule lev_mono) (use assms in simp)
  ultimately have "lev (n - 3 + 3) (fadd a b)" by (rule lev_fadd) (use assms in simp)
  then show ?thesis using assms(3) by simp
qed

lemma lev_sub:
  assumes "lev j a" "lev k b" "j + 3 \<le> n" "k + 3 \<le> n" "n \<le> 1003"
  shows "lev n (fsub a b)"
  unfolding fsub_def using assms(1) lev_fneg [OF assms(2)] assms(3-5) by (rule lev_add)

lemma lev_mul:
  assumes "lev j a" "lev k b" "j + k + 2 \<le> n" "n \<le> 1003"
  shows "lev n (fmul a b)"
proof -
  have "lev (j + k + 2) (fmul a b)" using assms(1,2) by (rule lev_fmul) (use assms in simp)
  then show ?thesis using assms(3) by (rule lev_mono)
qed

lemma lev_fmaximum: "lev k a \<Longrightarrow> lev k (fmaximum a (Fin 0))"
  by (cases a) (auto simp add: fmaximum_def)

lemma between_lev: "between lo hi v \<Longrightarrow> - (2 ^ k) \<le> lo \<Longrightarrow> hi \<le> 2 ^ k \<Longrightarrow> lev k v"
  by (cases v) (simp_all add: abs_le_iff)

lemma lev_Fin: "\<bar>x\<bar> \<le> 2 ^ k \<Longrightarrow> lev k (Fin x)"
  by simp

lemma in_set_map2:
  "v \<in> set (map2 f xs ys) \<Longrightarrow> \<exists>a \<in> set xs. \<exists>b \<in> set ys. v = f a b"
  by (auto dest: set_zip_leftD set_zip_rightD)

section \<open>Properties of the dispersion simulator\<close>

subsection \<open>The magnitudes of the cells through the stages\<close>

lemma all_cells_mono: "all_cells P g \<Longrightarrow> (\<And>v. P v \<Longrightarrow> Q v) \<Longrightarrow> all_cells Q g"
  by (simp add: all_cells_def)

lemma all_cells_row: "all_cells P g \<Longrightarrow> j < length g \<Longrightarrow> \<forall>v \<in> set (g ! j). P v"
proof -
  assume a: "all_cells P g" and "j < length g"
  then have "g ! j \<in> set g" by simp
  with a show ?thesis unfolding all_cells_def by blast
qed

lemma all_cells_nth: "all_cells P g \<Longrightarrow> j < length g \<Longrightarrow> i < length (g ! j) \<Longrightarrow> P (g ! j ! i)"
proof -
  assume "all_cells P g" "j < length g" and i: "i < length (g ! j)"
  then have r: "\<forall>v \<in> set (g ! j). P v" by (intro all_cells_row)
  from i have "g ! j ! i \<in> set (g ! j)" by simp
  with r show ?thesis by blast
qed

lemma all_cells_lev_mono: "all_cells (lev j) g \<Longrightarrow> j \<le> k \<Longrightarrow> all_cells (lev k) g"
  using lev_mono [of j _ k] by (simp add: all_cells_def)

lemma row_lev_mono: "\<forall>v \<in> set r. lev j v \<Longrightarrow> j \<le> k \<Longrightarrow> \<forall>v \<in> set r. lev k v"
  using lev_mono [of j _ k] by blast

lemma all_cells_row_update:
  assumes "all_cells P g" "\<forall>v \<in> set r. P v"
  shows "all_cells P (g[j := r])"
  unfolding all_cells_def
proof
  fix r'
  assume "r' \<in> set (g[j := r])"
  then have "r' = r \<or> r' \<in> set g"
    using set_update_subset_insert [of g j r] by blast
  with assms show "\<forall>v \<in> set r'. P v" by (auto simp add: all_cells_def)
qed

lemma row_cell_update:
  assumes "\<forall>v \<in> set r. P v" "P w"
  shows "\<forall>v \<in> set (r[i := w]). P v"
proof
  fix v
  assume "v \<in> set (r[i := w])"
  then have "v = w \<or> v \<in> set r"
    using set_update_subset_insert [of r i w] by blast
  with assms show "P v" by blast
qed

lemma all_cells_map: "all_cells P g \<Longrightarrow> (\<And>v. P v \<Longrightarrow> Q (f v)) \<Longrightarrow> all_cells Q (map (map f) g)"
  by (simp add: all_cells_def)

lemma inject_lev:
  assumes w: "wf_grid (c s)" and g: "all_cells (lev 3) (c s)" and l: "lev 1 (leak_rate s)"
  shows "all_cells (lev 6) (c (inject_stage s))"
proof -
  let ?g = "c s"
  have j: "NY - 4 < length ?g" using w by (simp add: wf_grid_def NY_def)
  then have "?g ! (NY - 4) \<in> set ?g" by simp
  with w have i: "6 < length (?g ! (NY - 4))" by (simp add: wf_grid_def NX_def)
  have old: "all_cells (lev 6) ?g"
    using g by (rule all_cells_lev_mono) simp
  have "lev 0 (Fin (1 / 2))" by simp
  then have m: "lev 3 (fmul (Fin (1 / 2)) (leak_rate s))"
    using l by (rule lev_mul) simp_all
  have "lev 3 (?g ! (NY - 4) ! 6)" using g j i by (rule all_cells_nth)
  then have new: "lev 6 (fadd (?g ! (NY - 4) ! 6) (fmul (Fin (1 / 2)) (leak_rate s)))"
    using m by (rule lev_add) simp_all
  have "\<forall>v \<in> set (?g ! (NY - 4)). lev 6 v"
    using old j by (rule all_cells_row)
  then have "\<forall>v \<in> set ((?g ! (NY - 4))[6 := fadd (?g ! (NY - 4) ! 6)
      (fmul (Fin (1 / 2)) (leak_rate s))]). lev 6 v"
    using new by (rule row_cell_update)
  with old have "all_cells (lev 6) (?g[NY - 4 := (?g ! (NY - 4))[6 := fadd (?g ! (NY - 4) ! 6)
      (fmul (Fin (1 / 2)) (leak_rate s))]])"
    by (rule all_cells_row_update)
  then show ?thesis by (simp add: inject_stage_def leak_cell_def)
qed

lemma add_scaled_lev:
  assumes "\<forall>v \<in> set r. lev 6 v" "\<forall>v \<in> set r'. lev 6 v" "lev 0 up"
  shows "\<forall>v \<in> set (add_scaled up r r'). lev 11 v"
proof
  fix v
  assume "v \<in> set (add_scaled up r r')"
  then obtain a b where a: "a \<in> set r" and b: "b \<in> set r'" and v: "v = fadd a (fmul up b)"
    unfolding add_scaled_def by (blast dest: in_set_map2)
  have "lev 6 b" using assms(2) b by simp
  with assms(3) have p: "lev 8 (fmul up b)" by (rule lev_mul) simp_all
  have "lev 6 a" using assms(1) a by simp
  then have "lev 11 (fadd a (fmul up b))" using p by (rule lev_add) simp_all
  then show "lev 11 v" by (simp add: v)
qed

lemma sub_scaled_lev:
  assumes "\<forall>v \<in> set r. lev 11 v" "\<forall>v \<in> set r'. lev 6 v" "lev 0 up"
  shows "\<forall>v \<in> set (sub_scaled up r r'). lev 14 v"
proof
  fix v
  assume "v \<in> set (sub_scaled up r r')"
  then obtain a b where a: "a \<in> set r" and b: "b \<in> set r'" and v: "v = fsub a (fmul up b)"
    unfolding sub_scaled_def by (blast dest: in_set_map2)
  have "lev 6 b" using assms(2) b by simp
  with assms(3) have p: "lev 8 (fmul up b)" by (rule lev_mul) simp_all
  have "lev 11 a" using assms(1) a by simp
  then have "lev 14 (fsub a (fmul up b))" using p by (rule lev_sub) simp_all
  then show "lev 14 v" by (simp add: v)
qed

lemma add_below_lev:
  assumes "all_cells (lev 6) g" "lev 0 up"
  shows "all_cells (lev 11) (add_below up g)"
  unfolding all_cells_def
proof
  fix r
  assume "r \<in> set (add_below up g)"
  then consider "r \<in> set (map2 (add_scaled up) (take (length g - 1) g) (drop 1 g))"
    | "r \<in> set (drop (length g - 1) g)"
    unfolding add_below_def by auto
  then show "\<forall>v \<in> set r. lev 11 v"
  proof cases
    case 1
    then obtain a b where "a \<in> set (take (length g - 1) g)" "b \<in> set (drop 1 g)"
      and r: "r = add_scaled up a b"
      by (blast dest: in_set_map2)
    then have "a \<in> set g" "b \<in> set g"
      by (auto dest: in_set_takeD in_set_dropD)
    with assms show ?thesis
      unfolding r by (intro add_scaled_lev) (simp_all add: all_cells_def)
  next
    case 2
    then have "r \<in> set g" by (rule in_set_dropD)
    with assms(1) have "\<forall>v \<in> set r. lev 6 v" by (simp add: all_cells_def)
    then show ?thesis by (rule row_lev_mono) simp
  qed
qed

lemma advect_up_lev:
  assumes "all_cells (lev 6) g" "lev 0 up"
  shows "all_cells (lev 14) (advect_up up g)"
  unfolding all_cells_def
proof
  fix r
  have t: "all_cells (lev 11) (add_below up g)" using assms by (rule add_below_lev)
  assume "r \<in> set (advect_up up g)"
  then consider "r \<in> set (take 1 (add_below up g))"
    | "r \<in> set (map2 (sub_scaled up) (drop 1 (add_below up g)) (drop 1 g))"
    unfolding advect_up_def sub_own_def by auto
  then show "\<forall>v \<in> set r. lev 14 v"
  proof cases
    case 1
    then have "r \<in> set (add_below up g)" by (rule in_set_takeD)
    with t have "\<forall>v \<in> set r. lev 11 v" by (simp add: all_cells_def)
    then show ?thesis by (rule row_lev_mono) simp
  next
    case 2
    then obtain a b where "a \<in> set (drop 1 (add_below up g))" "b \<in> set (drop 1 g)"
      and r: "r = sub_scaled up a b"
      by (blast dest: in_set_map2)
    then have "a \<in> set (add_below up g)" "b \<in> set g"
      by (auto dest: in_set_dropD)
    with t assms show ?thesis
      unfolding r by (intro sub_scaled_lev) (simp_all add: all_cells_def)
  qed
qed

lemma buoyancy_lev:
  assumes "all_cells (lev 6) (c s)" "lev 0 (buoyancy s)"
  shows "all_cells (lev 14) (c (buoyancy_stage s))"
proof (cases "is_positive (buoyancy s)")
  case True
  have "all_cells (lev 14) (advect_up (buoyancy s) (c s))"
    using assms by (rule advect_up_lev)
  then have "all_cells (lev 14) (clamp0 (advect_up (buoyancy s) (c s)))"
    unfolding clamp0_def by (rule all_cells_map) (rule lev_fmaximum)
  with True show ?thesis by (simp add: buoyancy_stage_def Let_def)
next
  case False
  have "all_cells (lev 14) (c s)"
    using assms(1) by (rule all_cells_lev_mono) simp
  with False show ?thesis by (simp add: buoyancy_stage_def Let_def)
qed

lemma rows_nth: "rows_of_length n g \<Longrightarrow> j < length g \<Longrightarrow> length (g ! j) = n"
  by (simp add: rows_of_length_def)

lemma diffuse_lev:
  assumes sh: "rows_of_length n g" and g: "all_cells (lev 14) g" and d: "lev 0 d"
  shows "all_cells (lev 28) (diffuse d g)"
  unfolding all_cells_def
proof (intro ballI)
  fix r v
  assume "r \<in> set (diffuse d g)" and v: "v \<in> set r"
  then obtain j where j: "j < length g"
    and r: "r = map (diffuse_cell d g j) [0..<length (g ! j)]"
    unfolding diffuse_def by auto
  from v obtain i where i: "i < length (g ! j)" and ve: "v = diffuse_cell d g j i"
    unfolding r by auto
  have here: "lev 14 (g ! j ! i)" using g j i by (rule all_cells_nth)
  show "lev 28 v"
  proof (cases "1 \<le> j \<and> j + 1 < length g \<and> 1 \<le> i \<and> i + 1 < length (g ! j)")
    case False
    then have "diffuse_cell d g j i = g ! j ! i" unfolding diffuse_cell_def by (rule if_not_P)
    with ve have "v = g ! j ! i" by simp
    with here show ?thesis by (auto intro: lev_mono [where j = 14])
  next
    case True
    have jb: "j + 1 < length g" and ja: "j - 1 < length g" using True j by arith+
    with sh j have len: "length (g ! (j + 1)) = n" "length (g ! (j - 1)) = n" "length (g ! j) = n"
      by (simp_all only: rows_nth)
    have ib: "i < length (g ! (j + 1))" and ia: "i < length (g ! (j - 1))"
      using i by (simp_all only: len)
    have ir: "i + 1 < length (g ! j)" and il: "i - 1 < length (g ! j)"
      using True i by arith+
    have below: "lev 14 (g ! (j + 1) ! i)" using g jb ib by (rule all_cells_nth)
    have above: "lev 14 (g ! (j - 1) ! i)" using g ja ia by (rule all_cells_nth)
    have right: "lev 14 (g ! j ! (i + 1))" using g j ir by (rule all_cells_nth)
    have left: "lev 14 (g ! j ! (i - 1))" using g j il by (rule all_cells_nth)
    have "lev 2 (Fin 4)" by simp
    then have "lev 4 (fmul (Fin 4) d)" using d by (rule lev_mul) simp_all
    with lev_Fin [of 1 0] have "lev 7 (fsub (Fin 1) (fmul (Fin 4) d))"
      by (intro lev_sub [where j = 0 and k = 4]) simp_all
    then have self: "lev 23 (fmul (fsub (Fin 1) (fmul (Fin 4) d)) (g ! j ! i))"
      using here by (rule lev_mul) simp_all
    have "lev 17 (fadd (g ! (j + 1) ! i) (g ! (j - 1) ! i))"
      using below above by (rule lev_add) simp_all
    then have "lev 20 (fadd (fadd (g ! (j + 1) ! i) (g ! (j - 1) ! i)) (g ! j ! (i + 1)))"
      using right by (rule lev_add) simp_all
    then have "lev 23 (fadd (fadd (fadd (g ! (j + 1) ! i) (g ! (j - 1) ! i)) (g ! j ! (i + 1)))
        (g ! j ! (i - 1)))"
      using left by (rule lev_add) simp_all
    with d have "lev 25 (fmul d (fadd (fadd (fadd (g ! (j + 1) ! i) (g ! (j - 1) ! i))
        (g ! j ! (i + 1))) (g ! j ! (i - 1))))"
      by (rule lev_mul) simp_all
    with self have "lev 28 (fadd (fmul (fsub (Fin 1) (fmul (Fin 4) d)) (g ! j ! i))
        (fmul d (fadd (fadd (fadd (g ! (j + 1) ! i) (g ! (j - 1) ! i))
        (g ! j ! (i + 1))) (g ! j ! (i - 1)))))"
      by (rule lev_add) simp_all
    moreover have "diffuse_cell d g j i = fadd (fmul (fsub (Fin 1) (fmul (Fin 4) d)) (g ! j ! i))
        (fmul d (fadd (fadd (fadd (g ! (j + 1) ! i) (g ! (j - 1) ! i))
        (g ! j ! (i + 1))) (g ! j ! (i - 1))))"
      unfolding diffuse_cell_def using True by (rule if_P)
    ultimately show ?thesis by (simp only: ve)
  qed
qed

lemma diffusion_lev:
  assumes "wf_grid (c s)" "all_cells (lev 14) (c s)" "lev 0 (diffusion s)"
  shows "all_cells (lev 28) (c (diffusion_stage s))"
proof (cases "is_positive (diffusion s)")
  case True
  have "rows_of_length NX (c s)" using assms(1) by (simp add: wf_grid_def rows_of_length_def)
  then have "all_cells (lev 28) (diffuse (diffusion s) (c s))"
    using assms(2,3) by (rule diffuse_lev)
  then have "all_cells (lev 28) (clamp0 (diffuse (diffusion s) (c s)))"
    unfolding clamp0_def by (rule all_cells_map) (rule lev_fmaximum)
  with True show ?thesis by (simp add: diffusion_stage_def Let_def)
next
  case False
  have "all_cells (lev 28) (c s)"
    using assms(2) by (rule all_cells_lev_mono) simp
  with False show ?thesis by (simp add: diffusion_stage_def Let_def)
qed

lemma vent_row_lev:
  assumes r: "\<forall>v \<in> set r. lev 28 v" and vent: "lev 0 vent"
  shows "\<forall>v \<in> set (vent_row vent r). lev 35 v"
proof
  fix v
  assume "v \<in> set (vent_row vent r)"
  then consider "v \<in> set (take vent_x0 r)" | "v \<in> set (drop vent_x1 r)"
    | a where "a \<in> set (take (vent_x1 - vent_x0) (drop vent_x0 r))"
        "v = fmul a (fsub (Fin 1) (fmul lit_0_6 vent))"
    unfolding vent_row_def by auto
  then show "lev 35 v"
  proof cases
    case 1
    then have "v \<in> set r" by (rule in_set_takeD)
    with r show ?thesis by (auto intro: lev_mono [where j = 28])
  next
    case 2
    then have "v \<in> set r" by (rule in_set_dropD)
    with r show ?thesis by (auto intro: lev_mono [where j = 28])
  next
    case 3
    then have "a \<in> set r" by (auto dest: in_set_takeD in_set_dropD)
    with r have a: "lev 28 a" by simp
    have "lev 0 lit_0_6" by (simp add: lit_0_6_def)
    then have "lev 2 (fmul lit_0_6 vent)" using vent by (rule lev_mul) simp_all
    with lev_Fin [of 1 0] have "lev 5 (fsub (Fin 1) (fmul lit_0_6 vent))"
      by (intro lev_sub [where j = 0 and k = 2]) simp_all
    with a have "lev 35 (fmul a (fsub (Fin 1) (fmul lit_0_6 vent)))"
      by (rule lev_mul) simp_all
    with 3 show ?thesis by simp
  qed
qed

lemma vent_lev:
  assumes "wf_grid (c s)" "all_cells (lev 28) (c s)" "lev 0 (vent_strength s)"
  shows "all_cells (lev 35) (c (vent_stage s))"
proof -
  have old: "all_cells (lev 35) (c s)"
    using assms(2) by (rule all_cells_lev_mono) simp
  show ?thesis
  proof (cases "is_positive (vent_strength s)")
    case True
    have "0 < length (c s)" using assms(1) by (simp add: wf_grid_def NY_def)
    with assms(2) have "\<forall>v \<in> set (c s ! 0). lev 28 v" by (rule all_cells_row)
    then have "\<forall>v \<in> set (vent_row (vent_strength s) (c s ! 0)). lev 35 v"
      using assms(3) by (rule vent_row_lev)
    with old have "all_cells (lev 35) ((c s)[0 := vent_row (vent_strength s) (c s ! 0)])"
      by (rule all_cells_row_update)
    with True show ?thesis by (simp add: vent_stage_def Let_def)
  next
    case False
    with old show ?thesis by (simp add: vent_stage_def Let_def)
  qed
qed

lemma clip_cell: "lev k v \<Longrightarrow> between 0 5 (fminimum (fmaximum v (Fin 0)) (Fin 5))"
  by (cases v) (auto simp add: fmaximum_def fminimum_def)

lemma clip_between:
  assumes "all_cells (lev k) g"
  shows "all_cells (between 0 5) (clip g)"
  unfolding clip_def using assms by (rule all_cells_map) (rule clip_cell)

subsection \<open>Every stage keeps the shape of the grid, and the tick clips it\<close>

lemma wf_grid_rows: "wf_grid g \<longleftrightarrow> length g = NY \<and> rows_of_length NX g"
  by (simp add: wf_grid_def rows_of_length_def)

lemma rows_update:
  "rows_of_length n g \<Longrightarrow> length r = n \<Longrightarrow> rows_of_length n (g[j := r])"
  unfolding rows_of_length_def
  using set_update_subset_insert [of g j r] by auto

lemma rows_map: "rows_of_length n g \<Longrightarrow> rows_of_length n (map (map f) g)"
  by (simp add: rows_of_length_def)

lemma wf_inject_stage: "wf_grid (c s) \<Longrightarrow> wf_grid (c (inject_stage s))"
proof -
  assume w: "wf_grid (c s)"
  then have l: "length (c s ! (NY - 4)) = NX"
    by (simp add: wf_grid_rows rows_nth NY_def)
  show ?thesis
    using w l by (simp add: inject_stage_def leak_cell_def wf_grid_rows rows_update)
qed

lemma length_add_scaled: "length (add_scaled k r r') = min (length r) (length r')"
  by (simp add: add_scaled_def)

lemma length_sub_scaled: "length (sub_scaled k r r') = min (length r) (length r')"
  by (simp add: sub_scaled_def)

lemma length_add_below: "length (add_below up g) = length g"
  by (simp add: add_below_def)

lemma length_advect_up: "length (advect_up up g) = length g"
  by (simp add: advect_up_def sub_own_def length_add_below)

lemma rows_add_below: "rows_of_length n g \<Longrightarrow> rows_of_length n (add_below up g)"
  unfolding rows_of_length_def
proof
  fix r
  assume g: "\<forall>r \<in> set g. length r = n" and "r \<in> set (add_below up g)"
  then consider "r \<in> set (map2 (add_scaled up) (take (length g - 1) g) (drop 1 g))"
    | "r \<in> set (drop (length g - 1) g)"
    unfolding add_below_def by auto
  then show "length r = n"
  proof cases
    case 1
    then obtain a b where "a \<in> set (take (length g - 1) g)" "b \<in> set (drop 1 g)"
      and r: "r = add_scaled up a b"
      by (blast dest: in_set_map2)
    then have "a \<in> set g" "b \<in> set g"
      by (auto dest: in_set_takeD in_set_dropD)
    with g show ?thesis by (simp add: r length_add_scaled)
  next
    case 2
    then have "r \<in> set g" by (rule in_set_dropD)
    with g show ?thesis by simp
  qed
qed

lemma rows_advect_up: "rows_of_length n g \<Longrightarrow> rows_of_length n (advect_up up g)"
proof -
  assume g: "rows_of_length n g"
  then have t: "rows_of_length n (add_below up g)" by (rule rows_add_below)
  show ?thesis
    unfolding rows_of_length_def
  proof
    fix r
    assume "r \<in> set (advect_up up g)"
    then consider "r \<in> set (take 1 (add_below up g))"
      | "r \<in> set (map2 (sub_scaled up) (drop 1 (add_below up g)) (drop 1 g))"
      unfolding advect_up_def sub_own_def by auto
    then show "length r = n"
    proof cases
      case 1
      then have "r \<in> set (add_below up g)" by (rule in_set_takeD)
      with t show ?thesis by (simp add: rows_of_length_def)
    next
      case 2
      then obtain a b where "a \<in> set (drop 1 (add_below up g))" "b \<in> set (drop 1 g)"
        and r: "r = sub_scaled up a b"
        by (blast dest: in_set_map2)
      then have "a \<in> set (add_below up g)" "b \<in> set g"
        by (auto dest: in_set_dropD)
      with t g show ?thesis by (simp add: r length_sub_scaled rows_of_length_def)
    qed
  qed
qed

lemma wf_buoyancy_stage: "wf_grid (c s) \<Longrightarrow> wf_grid (c (buoyancy_stage s))"
  by (simp add: buoyancy_stage_def Let_def clamp0_def wf_grid_rows rows_map rows_advect_up
      length_advect_up)

lemma length_diffuse: "length (diffuse d g) = length g"
  by (simp add: diffuse_def)

lemma rows_diffuse: "rows_of_length n g \<Longrightarrow> rows_of_length n (diffuse d g)"
  by (auto simp add: diffuse_def rows_of_length_def)

lemma wf_diffusion_stage: "wf_grid (c s) \<Longrightarrow> wf_grid (c (diffusion_stage s))"
  by (simp add: diffusion_stage_def Let_def clamp0_def wf_grid_rows rows_map rows_diffuse
      length_diffuse)

lemma length_vent_row: "length r = NX \<Longrightarrow> length (vent_row vent r) = NX"
  by (simp add: vent_row_def vent_x0_def vent_x1_def NX_def)

lemma wf_vent_stage: "wf_grid (c s) \<Longrightarrow> wf_grid (c (vent_stage s))"
proof -
  assume w: "wf_grid (c s)"
  then have "length (c s ! 0) = NX"
    by (simp add: wf_grid_rows rows_nth NY_def)
  then have "length (vent_row (vent_strength s) (c s ! 0)) = NX"
    by (rule length_vent_row)
  with w show ?thesis
    by (simp add: vent_stage_def Let_def wf_grid_rows rows_update)
qed

lemma wf_clip_stage: "wf_grid (c s) \<Longrightarrow> wf_grid (c (clip_stage s))"
  by (simp add: clip_stage_def clip_def wf_grid_rows rows_map)

lemma wf_step: "wf_grid (c s) \<Longrightarrow> wf_grid (c (step s))"
  unfolding step_def
  by (intro wf_clip_stage wf_vent_stage wf_diffusion_stage wf_buoyancy_stage wf_inject_stage)

text \<open>The stages read the sliders and never write them.\<close>

lemma sliders_inject_stage:
  "buoyancy (inject_stage s) = buoyancy s" "diffusion (inject_stage s) = diffusion s"
  "vent_strength (inject_stage s) = vent_strength s"
  by (simp_all add: inject_stage_def leak_cell_def)

lemma sliders_buoyancy_stage:
  "diffusion (buoyancy_stage s) = diffusion s" "vent_strength (buoyancy_stage s) = vent_strength s"
  by (simp_all add: buoyancy_stage_def Let_def)

lemma sliders_diffusion_stage: "vent_strength (diffusion_stage s) = vent_strength s"
  by (simp add: diffusion_stage_def Let_def)

lemma range_lev: "between 0 5 v \<Longrightarrow> lev 3 v"
  by (cases v) simp_all

text \<open>
  C2 (grid clipping), as the code has it. From every state whose grid has the
  simulator's \<open>NY\<close> rows of \<open>NX\<close> cells, every cell a finite number in \<open>[0, 5]\<close> (the
  zero grid of \<open>_init_grid\<close> is one, and every tick leaves one), and for all values of
  the four parameters within the ranges of their sliders (leak in \<open>[0, 2]\<close>, vent in
  \<open>[0, 1]\<close>, buoyancy in \<open>[0, 1]\<close>, diffusion in \<open>[0, 0.6]\<close>), the grid after \<open>_step\<close>
  has the same shape and every cell of it is a finite number in the closed interval
  \<open>[0, 5]\<close>. All the operations are those of double-precision numbers.
\<close>

theorem step_clipped:
  assumes w: "wf_grid (c s)" and g: "all_cells (between 0 5) (c s)"
    and leak: "between 0 2 (leak_rate s)" and vent: "between 0 1 (vent_strength s)"
    and up: "between 0 1 (buoyancy s)" and d: "between 0 (3 / 5) (diffusion s)"
  shows "wf_grid (c (step s)) \<and> all_cells (between 0 5) (c (step s))"
proof -
  let ?s1 = "inject_stage s"
  let ?s2 = "buoyancy_stage ?s1"
  let ?s3 = "diffusion_stage ?s2"
  let ?s4 = "vent_stage ?s3"
  have w1: "wf_grid (c ?s1)" using w by (rule wf_inject_stage)
  then have w2: "wf_grid (c ?s2)" by (rule wf_buoyancy_stage)
  then have w3: "wf_grid (c ?s3)" by (rule wf_diffusion_stage)
  have l0: "all_cells (lev 3) (c s)"
    using g by (rule all_cells_mono) (rule range_lev)
  have "lev 1 (leak_rate s)" using leak by (rule between_lev) simp_all
  with w l0 have l1: "all_cells (lev 6) (c ?s1)" by (rule inject_lev)
  have "lev 0 (buoyancy s)" using up by (rule between_lev) simp_all
  then have "lev 0 (buoyancy ?s1)" by (simp only: sliders_inject_stage)
  with l1 have l2: "all_cells (lev 14) (c ?s2)" by (rule buoyancy_lev)
  have "lev 0 (diffusion s)" using d by (rule between_lev) simp_all
  then have "lev 0 (diffusion ?s2)"
    by (simp only: sliders_inject_stage sliders_buoyancy_stage)
  with w2 l2 have l3: "all_cells (lev 28) (c ?s3)" by (rule diffusion_lev)
  have "lev 0 (vent_strength s)" using vent by (rule between_lev) simp_all
  then have "lev 0 (vent_strength ?s3)"
    by (simp only: sliders_inject_stage sliders_buoyancy_stage sliders_diffusion_stage)
  with w3 l3 have "all_cells (lev 35) (c ?s4)" by (rule vent_lev)
  then have "all_cells (between 0 5) (clip (c ?s4))" by (rule clip_between)
  then have "all_cells (between 0 5) (c (step s))"
    by (simp add: step_def clip_stage_def)
  with wf_step [OF w] show ?thesis by simp
qed

lemma demo_sim_grid: "c demo_sim = replicate NY (replicate NX (Fin 0))"
  by (simp add: demo_sim_def init_grid_def)

text \<open>The first tick of the simulator as \<open>__init__\<close> leaves it, at the leak cell.\<close>

theorem step_clipped_witness:
  "wf_grid (c demo_sim) \<and> all_cells (between 0 5) (c demo_sim)
   \<and> wf_grid (c (step demo_sim)) \<and> between 0 5 (c (step demo_sim) ! 31 ! 6)"
proof -
  have w: "wf_grid (c demo_sim)"
    by (simp add: demo_sim_grid wf_grid_def)
  have g: "all_cells (between 0 5) (c demo_sim)"
    by (simp add: demo_sim_grid all_cells_def)
  have p: "between 0 2 (leak_rate demo_sim)" "between 0 1 (vent_strength demo_sim)"
    "between 0 1 (buoyancy demo_sim)" "between 0 (3 / 5) (diffusion demo_sim)"
    by (simp_all add: demo_sim_def init_grid_def)
  from step_clipped [OF w g p]
  have w': "wf_grid (c (step demo_sim))" and r: "all_cells (between 0 5) (c (step demo_sim))"
    by simp_all
  from w' have j: "31 < length (c (step demo_sim))"
    and "rows_of_length NX (c (step demo_sim))"
    by (simp_all add: wf_grid_rows NY_def)
  then have "length (c (step demo_sim) ! 31) = NX" by (intro rows_nth)
  then have "6 < length (c (step demo_sim) ! 31)" by (simp add: NX_def)
  with r j have "between 0 5 (c (step demo_sim) ! 31 ! 6)" by (rule all_cells_nth)
  with w g w' show ?thesis by simp
qed

lemma replicate_update_same: "(replicate n x)[i := x] = replicate n x"
  by (induction n arbitrary: i) (simp_all split: nat.splits)

lemma nan_sim_grid: "c nan_sim = replicate NY (replicate NX (Fin 0))"
  by (simp add: nan_sim_def init_grid_def)

lemma fmul_overflow: "fmul (Fin 4) big_diffusion = PInf"
proof -
  have "pow2 1024 = 2 ^ 1024" by (simp add: pow2_def)
  then have "overflow_bound < 2 ^ 1024" using overflow_bound_less by simp
  then have "overflow_bound \<le> \<bar>4 * 2 ^ 1023\<bar>" by simp
  then have "round64 (4 * 2 ^ 1023) = PInf" unfolding round64_def by simp
  then show ?thesis by (simp only: big_diffusion_def fmul.simps)
qed

lemma is_positive_big: "is_positive big_diffusion"
  by (simp add: big_diffusion_def)

lemma nan_cell: "diffuse_cell big_diffusion (replicate NY (replicate NX (Fin 0))) 1 1 = NaN"
  by (simp add: diffuse_cell_def NY_def NX_def fmul_overflow fsub_def)

lemma inject_nan_sim: "inject_stage nan_sim = nan_sim"
proof -
  have "fadd (Fin 0) (fmul (Fin (1 / 2)) (Fin 0)) = Fin 0"
    by (simp add: round64_0)
  then show ?thesis
    by (simp add: inject_stage_def leak_cell_def nan_sim_def init_grid_def NY_def NX_def
        replicate_update_same)
qed

text \<open>
  The claim as it is written, for all parameter values, fails: with the diffusion
  parameter at the finite double \<open>2^1023\<close>, the product \<open>4*d\<close> overflows to \<open>+\<infinity>\<close>,
  \<open>1-4*d\<close> is \<open>-\<infinity>\<close>, and \<open>(1-4*d) * c\<close> with the cell 0 is NaN, which
  \<open>np.maximum\<close> and \<open>np.clip\<close> keep: after one tick from the zero grid the cell
  \<open>c[1, 1]\<close> is NaN, and so not in \<open>[0, 5]\<close>.
\<close>

theorem step_nan_counterexample:
  "wf_grid (c nan_sim) \<and> all_cells (between 0 5) (c nan_sim)
   \<and> diffusion nan_sim = Fin (2 ^ 1023)
   \<and> c (step nan_sim) ! 1 ! 1 = NaN"
proof -
  let ?Z = "replicate NY (replicate NX (Fin 0))"
  have w: "wf_grid (c nan_sim)" by (simp add: nan_sim_grid wf_grid_def)
  have g: "all_cells (between 0 5) (c nan_sim)" by (simp add: nan_sim_grid all_cells_def)
  have d: "diffusion nan_sim = Fin (2 ^ 1023)"
    by (simp add: nan_sim_def init_grid_def big_diffusion_def)
  have p: "buoyancy nan_sim = Fin 0" "vent_strength nan_sim = Fin 0"
    "diffusion nan_sim = big_diffusion"
    by (simp_all add: nan_sim_def init_grid_def)
  have s2: "buoyancy_stage nan_sim = nan_sim"
    by (simp add: buoyancy_stage_def p Let_def)
  have s3: "c (diffusion_stage nan_sim) = clamp0 (diffuse big_diffusion ?Z)"
    and v3: "vent_strength (diffusion_stage nan_sim) = Fin 0"
    by (simp_all add: diffusion_stage_def p is_positive_big nan_sim_grid Let_def)
  have s4: "c (vent_stage (diffusion_stage nan_sim)) = clamp0 (diffuse big_diffusion ?Z)"
    by (simp add: vent_stage_def v3 s3)
  have cs: "c (step nan_sim) = clip (clamp0 (diffuse big_diffusion ?Z))"
    by (simp add: step_def inject_nan_sim s2 s4 clip_stage_def)
  have "diffuse big_diffusion ?Z ! 1 ! 1 = NaN"
    using nan_cell by (simp add: diffuse_def NY_def NX_def)
  then have "clip (clamp0 (diffuse big_diffusion ?Z)) ! 1 ! 1 = NaN"
    by (simp add: clip_def clamp0_def diffuse_def NY_def NX_def fmaximum_def fminimum_def)
  with cs have "c (step nan_sim) ! 1 ! 1 = NaN" by simp
  with w g d show ?thesis by simp
qed

subsection \<open>The buoyancy stage keeps the cells from falling below zero\<close>

lemma add_below_simps:
  "add_below up [] = []"
  "add_below up [r] = [r]"
  "add_below up (r # r' # g) = add_scaled up r r' # add_below up (r' # g)"
  by (simp_all add: add_below_def)

lemma lower_rows_simps:
  "lower_rows up [] = []"
  "lower_rows up [r] = [sub_scaled up r r]"
  "lower_rows up (r # r' # g) = sub_scaled up (add_scaled up r r') r # lower_rows up (r' # g)"
  by (simp_all add: lower_rows_def add_below_simps)

lemma advect_up_simps:
  "advect_up up [] = []"
  "advect_up up [r] = [r]"
  "advect_up up (r # r' # g) = add_scaled up r r' # lower_rows up (r' # g)"
  by (simp_all add: advect_up_def sub_own_def add_below_simps lower_rows_def)

lemma overflow_bound_pos: "0 < overflow_bound"
  using overflow_bound_ge pow2_pos [of 1023] by simp

lemma representable_lt_overflow:
  assumes "representable y"
  shows "\<bar>y\<bar> < overflow_bound"
proof -
  from assms obtain m k where y: "y = of_int m * pow2 k" and m: "\<bar>m\<bar> < 2 ^ 53"
    and k: "- 1074 \<le> k" "k \<le> 971"
    unfolding representable_def by blast
  from m have "\<bar>m\<bar> \<le> 2 ^ 53 - 1" by simp
  then have "real_of_int \<bar>m\<bar> \<le> of_int (2 ^ 53 - 1)" by (simp only: of_int_le_iff)
  then have mm: "\<bar>real_of_int m\<bar> \<le> 2 ^ 53 - 1" by simp
  have "\<bar>y\<bar> = \<bar>of_int m\<bar> * pow2 k"
    using pow2_pos [of k] by (simp add: y abs_mult)
  also have "\<dots> \<le> (2 ^ 53 - 1) * pow2 k"
    using mm pow2_pos [of k] by (intro mult_right_mono) simp_all
  also have "\<dots> \<le> (2 ^ 53 - 1) * pow2 971"
    using k(2) by (intro mult_left_mono pow2_mono) simp_all
  also have "\<dots> = pow2 1024 - pow2 971"
    using pow2_add [of 53 971] by (simp add: pow2_numeral algebra_simps)
  also have "\<dots> < pow2 1024 - pow2 970"
  proof -
    have "pow2 971 = 2 * pow2 970" using pow2_add [of 1 970] by (simp add: pow2_def)
    then show ?thesis using pow2_pos [of 970] by simp
  qed
  finally show ?thesis by (simp add: overflow_bound_def)
qed

lemma round64_not_negative: "0 \<le> z \<Longrightarrow> not_negative (round64 z)"
  using overflow_bound_pos by (auto simp add: round64_def nearest_nonneg)

text \<open>The product of a cell with a factor in \<open>[0, 1]\<close> is finite and between 0 and the cell.\<close>

lemma fmul_fraction:
  assumes u: "0 \<le> u" "u \<le> 1" and x: "representable x" "0 \<le> x"
  shows "\<exists>p. fmul (Fin u) (Fin x) = Fin p \<and> 0 \<le> p \<and> p \<le> x"
proof -
  have ux: "0 \<le> u * x" "u * x \<le> x"
    using u x by (simp_all add: mult_left_le_one_le)
  then have "\<bar>u * x\<bar> \<le> \<bar>x\<bar>" by simp
  with representable_lt_overflow [OF x(1)] have "\<bar>u * x\<bar> < overflow_bound" by simp
  then have "fmul (Fin u) (Fin x) = Fin (nearest (u * x))" by (simp add: round64_Fin)
  moreover have "0 \<le> nearest (u * x)" using ux(1) by (rule nearest_nonneg)
  moreover have "nearest (u * x) \<le> x" using x(1) ux by (rule nearest_le_representable)
  ultimately show ?thesis by blast
qed

lemma fadd_grows:
  assumes x: "representable x" "0 \<le> x" and p: "0 \<le> p"
  shows "fadd (Fin x) (Fin p) = PInf \<or> (\<exists>s. fadd (Fin x) (Fin p) = Fin s \<and> x \<le> s)"
proof (cases "overflow_bound \<le> \<bar>x + p\<bar>")
  case True
  with overflow_bound_pos x p have "0 < x + p" by simp
  with True show ?thesis by (simp add: round64_def)
next
  case False
  then have lt: "\<bar>x + p\<bar> < overflow_bound" by simp
  with overflow_bound_less x p have "x + p < pow2 1024" by simp
  with x p have "x \<le> nearest (x + p)" by (intro nearest_ge_representable) simp_all
  with lt show ?thesis by (simp add: round64_Fin)
qed

lemma cell_first:
  assumes "0 \<le> u" "u \<le> 1" "nonneg_double a" "nonneg_double b"
  shows "not_negative (fadd a (fmul (Fin u) b))"
proof -
  from assms(3) obtain x where a: "a = Fin x" and x: "representable x" "0 \<le> x"
    by (cases a) simp_all
  from assms(4) obtain y where b: "b = Fin y" and y: "representable y" "0 \<le> y"
    by (cases b) simp_all
  from fmul_fraction [OF assms(1,2) y] obtain p where
    p: "fmul (Fin u) b = Fin p" "0 \<le> p" unfolding b by blast
  from fadd_grows [OF x p(2)] have "not_negative (fadd (Fin x) (Fin p))"
    using x(2) by auto
  then show ?thesis unfolding p(1) a .
qed

lemma cell_mid:
  assumes "0 \<le> u" "u \<le> 1" "nonneg_double a" "nonneg_double b"
  shows "not_negative (fsub (fadd a (fmul (Fin u) b)) (fmul (Fin u) a))"
proof -
  from assms(3) obtain x where a: "a = Fin x" and x: "representable x" "0 \<le> x"
    by (cases a) simp_all
  from assms(4) obtain y where b: "b = Fin y" and y: "representable y" "0 \<le> y"
    by (cases b) simp_all
  from fmul_fraction [OF assms(1,2) y] obtain p where
    p: "fmul (Fin u) b = Fin p" "0 \<le> p" unfolding b by blast
  from fmul_fraction [OF assms(1,2) x] obtain q where
    q: "fmul (Fin u) (Fin x) = Fin q" "0 \<le> q" "q \<le> x" by blast
  have "not_negative (fsub (fadd (Fin x) (Fin p)) (Fin q))"
    using fadd_grows [OF x p(2)]
  proof
    assume inf: "fadd (Fin x) (Fin p) = PInf"
    show ?thesis unfolding inf by (simp add: fsub_def)
  next
    assume "\<exists>s. fadd (Fin x) (Fin p) = Fin s \<and> x \<le> s"
    then obtain s where s: "fadd (Fin x) (Fin p) = Fin s" "x \<le> s" by blast
    with q have "0 \<le> s + - q" by simp
    then have "not_negative (round64 (s + - q))" by (rule round64_not_negative)
    then show ?thesis unfolding s(1) by (simp add: fsub_def)
  qed
  then show ?thesis unfolding p(1) a q(1) .
qed

lemma cell_last:
  assumes "0 \<le> u" "u \<le> 1" "nonneg_double a"
  shows "not_negative (fsub a (fmul (Fin u) a))"
proof -
  from assms(3) obtain x where a: "a = Fin x" and x: "representable x" "0 \<le> x"
    by (cases a) simp_all
  from fmul_fraction [OF assms(1,2) x] obtain q where
    q: "fmul (Fin u) (Fin x) = Fin q" "0 \<le> q" "q \<le> x" by blast
  then have "0 \<le> x + - q" by simp
  then have "not_negative (round64 (x + - q))" by (rule round64_not_negative)
  then have "not_negative (fsub (Fin x) (Fin q))" by (simp add: fsub_def)
  then show ?thesis unfolding a q(1) .
qed

lemma row_mid_cells:
  assumes mid: "\<And>a b. P a \<Longrightarrow> P b \<Longrightarrow> Q (fsub (fadd a (fmul k b)) (fmul k a))"
  shows "\<forall>v \<in> set r. P v \<Longrightarrow> \<forall>v \<in> set r'. P v \<Longrightarrow>
   \<forall>v \<in> set (sub_scaled k (add_scaled k r r') r). Q v"
proof (induction r arbitrary: r')
  case Nil
  show ?case by (simp add: sub_scaled_def add_scaled_def)
next
  case (Cons a r)
  show ?case
  proof (cases r')
    case Nil
    then show ?thesis by (simp add: sub_scaled_def add_scaled_def)
  next
    case (Cons b r'')
    have "\<forall>v \<in> set (sub_scaled k (add_scaled k r r'') r). Q v"
      using Cons.prems Cons by (intro Cons.IH) simp_all
    moreover have "Q (fsub (fadd a (fmul k b)) (fmul k a))"
      using Cons.prems Cons by (intro mid) simp_all
    ultimately show ?thesis
      using Cons by (simp add: sub_scaled_def add_scaled_def)
  qed
qed

lemma row_last_cells:
  assumes fin: "\<And>a. P a \<Longrightarrow> Q (fsub a (fmul k a))"
  shows "\<forall>v \<in> set r. P v \<Longrightarrow> \<forall>v \<in> set (sub_scaled k r r). Q v"
proof (induction r)
  case Nil
  show ?case by (simp add: sub_scaled_def)
next
  case (Cons a r)
  have "\<forall>v \<in> set (sub_scaled k r r). Q v"
    using Cons.prems by (intro Cons.IH) simp_all
  moreover have "Q (fsub a (fmul k a))"
    using Cons.prems by (intro fin) simp_all
  ultimately show ?case
    by (simp add: sub_scaled_def)
qed

lemma row_first_cells:
  assumes first: "\<And>a b. P a \<Longrightarrow> P b \<Longrightarrow> Q (fadd a (fmul k b))"
  shows "\<forall>v \<in> set r. P v \<Longrightarrow> \<forall>v \<in> set r'. P v \<Longrightarrow>
   \<forall>v \<in> set (add_scaled k r r'). Q v"
proof (induction r arbitrary: r')
  case Nil
  show ?case by (simp add: add_scaled_def)
next
  case (Cons a r)
  show ?case
  proof (cases r')
    case Nil
    then show ?thesis by (simp add: add_scaled_def)
  next
    case (Cons b r'')
    have "\<forall>v \<in> set (add_scaled k r r''). Q v"
      using Cons.prems Cons by (intro Cons.IH) simp_all
    moreover have "Q (fadd a (fmul k b))"
      using Cons.prems Cons by (intro first) simp_all
    ultimately show ?thesis
      using Cons by (simp add: add_scaled_def)
  qed
qed

lemma lower_rows_cells:
  assumes mid: "\<And>a b. P a \<Longrightarrow> P b \<Longrightarrow> Q (fsub (fadd a (fmul k b)) (fmul k a))"
    and fin: "\<And>a. P a \<Longrightarrow> Q (fsub a (fmul k a))"
  shows "all_cells P (r # g) \<Longrightarrow> all_cells Q (lower_rows k (r # g))"
proof (induction g arbitrary: r)
  case Nil
  then have "\<forall>v \<in> set r. P v" by (simp add: all_cells_def)
  with fin have "\<forall>v \<in> set (sub_scaled k r r). Q v"
    by (rule row_last_cells)
  then show ?case
    by (simp add: lower_rows_simps all_cells_def)
next
  case (Cons r' g)
  have "all_cells Q (lower_rows k (r' # g))"
    using Cons.prems by (intro Cons.IH) (simp_all add: all_cells_def)
  moreover have "\<forall>v \<in> set r. P v" "\<forall>v \<in> set r'. P v"
    using Cons.prems by (simp_all add: all_cells_def)
  with mid have "\<forall>v \<in> set (sub_scaled k (add_scaled k r r') r). Q v"
    by (rule row_mid_cells)
  ultimately show ?case
    by (simp add: lower_rows_simps all_cells_def)
qed

lemma advect_up_cells:
  assumes first: "\<And>a b. P a \<Longrightarrow> P b \<Longrightarrow> Q (fadd a (fmul k b))"
    and mid: "\<And>a b. P a \<Longrightarrow> P b \<Longrightarrow> Q (fsub (fadd a (fmul k b)) (fmul k a))"
    and fin: "\<And>a. P a \<Longrightarrow> Q (fsub a (fmul k a))"
    and keep: "\<And>a. P a \<Longrightarrow> Q a"
    and g: "all_cells P g"
  shows "all_cells Q (advect_up k g)"
proof (cases g)
  case Nil
  then show ?thesis by (simp add: advect_up_simps all_cells_def)
next
  case (Cons r g')
  note g' = Cons
  show ?thesis
  proof (cases g')
    case Nil
    with g' g keep show ?thesis
      by (simp add: advect_up_simps all_cells_def)
  next
    case (Cons r' g'')
    have "all_cells P (r' # g'')"
      using g g' Cons by (simp add: all_cells_def)
    with mid fin have "all_cells Q (lower_rows k (r' # g''))"
      by (rule lower_rows_cells)
    moreover have "\<forall>v \<in> set r. P v" "\<forall>v \<in> set r'. P v"
      using g g' Cons by (simp_all add: all_cells_def)
    with first have "\<forall>v \<in> set (add_scaled k r r'). Q v"
      by (rule row_first_cells)
    ultimately show ?thesis
      using g' Cons by (simp add: advect_up_simps all_cells_def)
  qed
qed

lemma nonneg_double_not_negative: "nonneg_double v \<Longrightarrow> not_negative v"
  by (cases v) simp_all

lemma not_negative_advect_up:
  assumes "all_cells nonneg_double g" "0 \<le> u" "u \<le> 1"
  shows "all_cells not_negative (advect_up (Fin u) g)"
  using assms(1)
proof (rule advect_up_cells [rotated 4])
  fix a b
  assume "nonneg_double a" "nonneg_double b"
  with assms(2,3) show "not_negative (fadd a (fmul (Fin u) b))" by (rule cell_first)
next
  fix a b
  assume "nonneg_double a" "nonneg_double b"
  with assms(2,3) show "not_negative (fsub (fadd a (fmul (Fin u) b)) (fmul (Fin u) a))"
    by (rule cell_mid)
next
  fix a
  assume "nonneg_double a"
  with assms(2,3) show "not_negative (fsub a (fmul (Fin u) a))" by (rule cell_last)
next
  fix a
  assume "nonneg_double a"
  then show "not_negative a" by (rule nonneg_double_not_negative)
qed

lemma fmaximum_not_negative: "not_negative v \<Longrightarrow> fmaximum v (Fin 0) = v"
  by (cases v) (simp_all add: fmaximum_def)

lemma clamp0_not_negative: "all_cells not_negative g \<Longrightarrow> clamp0 g = g"
  unfolding clamp0_def all_cells_def
proof (intro map_idI)
  fix r v
  assume "\<forall>r \<in> set g. \<forall>v \<in> set r. not_negative v" "r \<in> set g" "v \<in> set r"
  then have "not_negative v" by blast
  then show "fmaximum v (Fin 0) = v" by (rule fmaximum_not_negative)
qed

subsection \<open>The buoyancy stage changes the sum by its rounding only\<close>

lemma total_Cons: "total (r # g) = row_sum r + total g"
  by (simp add: total_def row_sum_def)

lemma total_Nil: "total [] = 0"
  by (simp add: total_def)

lemma row_sum_Cons: "row_sum (a # r) = val a + row_sum r"
  by (simp add: row_sum_def)

lemma moved_Cons: "moved u (a # r) = val (fmul (Fin u) a) + moved u r"
  by (simp add: moved_def)

lemma nearest_error_16:
  assumes "\<bar>z\<bar> < 16"
  shows "\<bar>nearest z - z\<bar> \<le> 1 / 2 ^ 50"
proof -
  have "pow2 (- 49 + 53) = 16" by (simp add: pow2_def)
  with assms have "\<bar>z\<bar> < pow2 (- 49 + 53)" by simp
  then have "quantum z \<le> - 49" by (intro quantum_least) simp_all
  then have "pow2 (quantum z) \<le> pow2 (- 49)" by (rule pow2_mono)
  moreover have "pow2 (- 49) = 1 / 2 ^ 49" by (simp add: pow2_def)
  ultimately have "pow2 (quantum z) / 2 \<le> 1 / 2 ^ 50" by simp
  with nearest_error [of z] show ?thesis by linarith
qed

lemma representable_12: "representable 12"
  unfolding representable_def
  by (rule exI [of _ 12], rule exI [of _ 0]) (simp add: pow2_def)

lemma overflow_bound_big: "16 < overflow_bound"
proof -
  have "(16::real) < 2 ^ 1023" by (rule less_le_trans [of _ "2 ^ 5"]) simp_all
  then show ?thesis using overflow_bound_ge by (simp add: pow2_numeral)
qed

lemma fadd_error:
  assumes x: "representable x" "0 \<le> x" "x \<le> 6" and p: "0 \<le> p" "p \<le> 6"
  shows "\<exists>s. fadd (Fin x) (Fin p) = Fin s \<and> x \<le> s \<and> s \<le> 12
             \<and> \<bar>s - (x + p)\<bar> \<le> 1 / 2 ^ 50"
proof -
  have b: "\<bar>x + p\<bar> < 16" using x p by simp
  with overflow_bound_big have lt: "\<bar>x + p\<bar> < overflow_bound" by simp
  with overflow_bound_less have "x + p < pow2 1024" by simp
  with x p have "x \<le> nearest (x + p)" by (intro nearest_ge_representable) simp_all
  moreover have "nearest (x + p) \<le> 12"
    using x p by (intro nearest_le_representable representable_12) simp_all
  moreover have "\<bar>nearest (x + p) - (x + p)\<bar> \<le> 1 / 2 ^ 50"
    using b by (rule nearest_error_16)
  ultimately show ?thesis using lt by (simp add: round64_Fin)
qed

lemma fsub_error:
  assumes "0 \<le> q" "q \<le> s" "s \<le> 12"
  shows "\<exists>t. fsub (Fin s) (Fin q) = Fin t \<and> 0 \<le> t \<and> t \<le> 12
             \<and> \<bar>t - (s - q)\<bar> \<le> 1 / 2 ^ 50"
proof -
  have b: "\<bar>s + - q\<bar> < 16" using assms by simp
  with overflow_bound_big have lt: "\<bar>s + - q\<bar> < overflow_bound" by simp
  have "\<bar>nearest (s + - q) - (s + - q)\<bar> \<le> 1 / 2 ^ 50"
    using b by (rule nearest_error_16)
  moreover have "0 \<le> nearest (s + - q)"
    using assms by (intro nearest_nonneg) simp
  moreover have "nearest (s + - q) \<le> 12"
    using assms by (intro nearest_le_representable representable_12) simp_all
  ultimately show ?thesis using lt by (simp add: fsub_def round64_Fin)
qed

lemma small_double_between: "small_double a \<Longrightarrow> between 0 12 a"
  by (cases a) (simp_all add: small_double_def)

lemma small_doubleE:
  assumes "small_double a"
  obtains x where "a = Fin x" "representable x" "0 \<le> x" "x \<le> 6"
  using assms by (cases a) (simp_all add: small_double_def)

lemma cell_first_error:
  assumes u: "0 \<le> u" "u \<le> 1" and a: "small_double a" and b: "small_double b"
  shows "\<bar>val (fadd a (fmul (Fin u) b)) - (val a + val (fmul (Fin u) b))\<bar> \<le> 1 / 2 ^ 49"
proof -
  from a obtain x where a': "a = Fin x" and x: "representable x" "0 \<le> x" "x \<le> 6"
    by (rule small_doubleE)
  from b obtain y where b': "b = Fin y" and y: "representable y" "0 \<le> y" "y \<le> 6"
    by (rule small_doubleE)
  from fmul_fraction [OF u y(1,2)] obtain p where
    p: "fmul (Fin u) b = Fin p" "0 \<le> p" "p \<le> y" unfolding b' by blast
  from p(3) y(3) have p6: "p \<le> 6" by simp
  from fadd_error [OF x p(2) p6] obtain s where
    s: "fadd (Fin x) (Fin p) = Fin s" "\<bar>s - (x + p)\<bar> \<le> 1 / 2 ^ 50" by blast
  have "\<bar>val (fadd (Fin x) (Fin p)) - (val (Fin x) + val (Fin p))\<bar> \<le> 1 / 2 ^ 49"
    unfolding s(1) using s(2) by simp
  then show ?thesis unfolding p(1) a' .
qed

lemma cell_mid_error:
  assumes u: "0 \<le> u" "u \<le> 1" and a: "small_double a" and b: "small_double b"
  shows "\<bar>val (fsub (fadd a (fmul (Fin u) b)) (fmul (Fin u) a))
          - (val a + val (fmul (Fin u) b) - val (fmul (Fin u) a))\<bar> \<le> 1 / 2 ^ 49"
proof -
  from a obtain x where a': "a = Fin x" and x: "representable x" "0 \<le> x" "x \<le> 6"
    by (rule small_doubleE)
  from b obtain y where b': "b = Fin y" and y: "representable y" "0 \<le> y" "y \<le> 6"
    by (rule small_doubleE)
  from fmul_fraction [OF u y(1,2)] obtain p where
    p: "fmul (Fin u) b = Fin p" "0 \<le> p" "p \<le> y" unfolding b' by blast
  from fmul_fraction [OF u x(1,2)] obtain q where
    q: "fmul (Fin u) (Fin x) = Fin q" "0 \<le> q" "q \<le> x" by blast
  from p(3) y(3) have p6: "p \<le> 6" by simp
  from fadd_error [OF x p(2) p6] obtain s where
    s: "fadd (Fin x) (Fin p) = Fin s" "x \<le> s" "s \<le> 12" "\<bar>s - (x + p)\<bar> \<le> 1 / 2 ^ 50"
    by blast
  from q(3) s(2) have qs: "q \<le> s" by simp
  from fsub_error [OF q(2) qs s(3)] obtain t where
    t: "fsub (Fin s) (Fin q) = Fin t" "\<bar>t - (s - q)\<bar> \<le> 1 / 2 ^ 50" by blast
  have "\<bar>t - (x + p - q)\<bar> \<le> \<bar>t - (s - q)\<bar> + \<bar>s - (x + p)\<bar>" by linarith
  also have "\<dots> \<le> 1 / 2 ^ 50 + 1 / 2 ^ 50" using s(4) t(2) by (rule add_mono [rotated])
  also have "\<dots> = 1 / 2 ^ 49" by simp
  finally have "\<bar>t - (x + p - q)\<bar> \<le> 1 / 2 ^ 49" .
  then have "\<bar>val (fsub (fadd (Fin x) (Fin p)) (Fin q))
              - (val (Fin x) + val (Fin p) - val (Fin q))\<bar> \<le> 1 / 2 ^ 49"
    unfolding s(1) t(1) by simp
  then show ?thesis unfolding p(1) a' q(1) .
qed

lemma cell_last_error:
  assumes u: "0 \<le> u" "u \<le> 1" and a: "small_double a"
  shows "\<bar>val (fsub a (fmul (Fin u) a)) - (val a - val (fmul (Fin u) a))\<bar> \<le> 1 / 2 ^ 49"
proof -
  from a obtain x where a': "a = Fin x" and x: "representable x" "0 \<le> x" "x \<le> 6"
    by (rule small_doubleE)
  from fmul_fraction [OF u x(1,2)] obtain q where
    q: "fmul (Fin u) (Fin x) = Fin q" "0 \<le> q" "q \<le> x" by blast
  from x(3) have x12: "x \<le> 12" by simp
  from fsub_error [OF q(2,3) x12] obtain t where
    t: "fsub (Fin x) (Fin q) = Fin t" "\<bar>t - (x - q)\<bar> \<le> 1 / 2 ^ 50" by blast
  have "\<bar>val (fsub (Fin x) (Fin q)) - (val (Fin x) - val (Fin q))\<bar> \<le> 1 / 2 ^ 49"
    unfolding t(1) using t(2) by simp
  then show ?thesis unfolding a' q(1) .
qed

lemma cell_first_bounded:
  assumes u: "0 \<le> u" "u \<le> 1" and a: "small_double a" and b: "small_double b"
  shows "between 0 12 (fadd a (fmul (Fin u) b))"
proof -
  from a obtain x where a': "a = Fin x" and x: "representable x" "0 \<le> x" "x \<le> 6"
    by (rule small_doubleE)
  from b obtain y where b': "b = Fin y" and y: "representable y" "0 \<le> y" "y \<le> 6"
    by (rule small_doubleE)
  from fmul_fraction [OF u y(1,2)] obtain p where
    p: "fmul (Fin u) b = Fin p" "0 \<le> p" "p \<le> y" unfolding b' by blast
  from p(3) y(3) have p6: "p \<le> 6" by simp
  from fadd_error [OF x p(2) p6] obtain s where
    s: "fadd (Fin x) (Fin p) = Fin s" "x \<le> s" "s \<le> 12" by blast
  have "between 0 12 (fadd (Fin x) (Fin p))"
    unfolding s(1) using s(2,3) x(2) by simp
  then show ?thesis unfolding p(1) a' .
qed

lemma cell_mid_bounded:
  assumes u: "0 \<le> u" "u \<le> 1" and a: "small_double a" and b: "small_double b"
  shows "between 0 12 (fsub (fadd a (fmul (Fin u) b)) (fmul (Fin u) a))"
proof -
  from a obtain x where a': "a = Fin x" and x: "representable x" "0 \<le> x" "x \<le> 6"
    by (rule small_doubleE)
  from b obtain y where b': "b = Fin y" and y: "representable y" "0 \<le> y" "y \<le> 6"
    by (rule small_doubleE)
  from fmul_fraction [OF u y(1,2)] obtain p where
    p: "fmul (Fin u) b = Fin p" "0 \<le> p" "p \<le> y" unfolding b' by blast
  from fmul_fraction [OF u x(1,2)] obtain q where
    q: "fmul (Fin u) (Fin x) = Fin q" "0 \<le> q" "q \<le> x" by blast
  from p(3) y(3) have p6: "p \<le> 6" by simp
  from fadd_error [OF x p(2) p6] obtain s where
    s: "fadd (Fin x) (Fin p) = Fin s" "x \<le> s" "s \<le> 12" by blast
  from q(3) s(2) have qs: "q \<le> s" by simp
  from fsub_error [OF q(2) qs s(3)] obtain t where
    t: "fsub (Fin s) (Fin q) = Fin t" "0 \<le> t" "t \<le> 12" by blast
  have "between 0 12 (fsub (fadd (Fin x) (Fin p)) (Fin q))"
    unfolding s(1) t(1) using t(2,3) by simp
  then show ?thesis unfolding p(1) a' q(1) .
qed

lemma cell_last_bounded:
  assumes u: "0 \<le> u" "u \<le> 1" and a: "small_double a"
  shows "between 0 12 (fsub a (fmul (Fin u) a))"
proof -
  from a obtain x where a': "a = Fin x" and x: "representable x" "0 \<le> x" "x \<le> 6"
    by (rule small_doubleE)
  from fmul_fraction [OF u x(1,2)] obtain q where
    q: "fmul (Fin u) (Fin x) = Fin q" "0 \<le> q" "q \<le> x" by blast
  from x(3) have x12: "x \<le> 12" by simp
  from fsub_error [OF q(2,3) x12] obtain t where
    t: "fsub (Fin x) (Fin q) = Fin t" "0 \<le> t" "t \<le> 12" by blast
  have "between 0 12 (fsub (Fin x) (Fin q))"
    unfolding t(1) using t(2,3) by simp
  then show ?thesis unfolding a' q(1) .
qed

lemma bounded_advect_up:
  assumes "all_cells small_double g" "0 \<le> u" "u \<le> 1"
  shows "all_cells (between 0 12) (advect_up (Fin u) g)"
  using assms(1)
proof (rule advect_up_cells [rotated 4])
  fix a b
  assume "small_double a" "small_double b"
  with assms(2,3) show "between 0 12 (fadd a (fmul (Fin u) b))" by (rule cell_first_bounded)
next
  fix a b
  assume "small_double a" "small_double b"
  with assms(2,3) show "between 0 12 (fsub (fadd a (fmul (Fin u) b)) (fmul (Fin u) a))"
    by (rule cell_mid_bounded)
next
  fix a
  assume "small_double a"
  with assms(2,3) show "between 0 12 (fsub a (fmul (Fin u) a))" by (rule cell_last_bounded)
next
  fix a
  assume "small_double a"
  then show "between 0 12 a" by (rule small_double_between)
qed

lemma add_scaled_Cons:
  "add_scaled k (a # r) (b # r') = fadd a (fmul k b) # add_scaled k r r'"
  by (simp add: add_scaled_def)

lemma sub_scaled_Cons:
  "sub_scaled k (a # r) (b # r') = fsub a (fmul k b) # sub_scaled k r r'"
  by (simp add: sub_scaled_def)

lemma add_scaled_Nil: "add_scaled k [] [] = []"
  by (simp add: add_scaled_def)

lemma sub_scaled_Nil: "sub_scaled k [] [] = []"
  by (simp add: sub_scaled_def)

lemma row_sum_Nil: "row_sum [] = 0"
  by (simp add: row_sum_def)

lemma moved_Nil: "moved u [] = 0"
  by (simp add: moved_def)

lemma real_Suc_mult: "real (Suc n) * e = real n * e + e"
  by (simp add: algebra_simps)

lemma row_first_error:
  assumes "length r = length r'" and "\<forall>v \<in> set r. small_double v"
    and "\<forall>v \<in> set r'. small_double v" and "0 \<le> u" "u \<le> 1"
  shows "\<bar>row_sum (add_scaled (Fin u) r r') - (row_sum r + moved u r')\<bar>
         \<le> real (length r) * rounding_unit"
  using assms(1-3)
proof (induction r r' rule: list_induct2)
  case Nil
  show ?case by (simp add: add_scaled_Nil row_sum_Nil moved_Nil)
next
  case (Cons a r b r')
  have ih: "\<bar>row_sum (add_scaled (Fin u) r r') - (row_sum r + moved u r')\<bar>
         \<le> real (length r) * rounding_unit"
    using Cons.prems by (intro Cons.IH) simp_all
  have cell: "\<bar>val (fadd a (fmul (Fin u) b)) - (val a + val (fmul (Fin u) b))\<bar>
         \<le> rounding_unit"
    unfolding rounding_unit_def using assms(4,5) Cons.prems by (intro cell_first_error) simp_all
  show ?case
    unfolding add_scaled_Cons row_sum_Cons moved_Cons length_Cons real_Suc_mult
    using ih cell by linarith
qed

lemma row_mid_error:
  assumes "length r = length r'" and "\<forall>v \<in> set r. small_double v"
    and "\<forall>v \<in> set r'. small_double v" and "0 \<le> u" "u \<le> 1"
  shows "\<bar>row_sum (sub_scaled (Fin u) (add_scaled (Fin u) r r') r)
          - (row_sum r + moved u r' - moved u r)\<bar>
         \<le> real (length r) * rounding_unit"
  using assms(1-3)
proof (induction r r' rule: list_induct2)
  case Nil
  show ?case by (simp add: add_scaled_Nil sub_scaled_Nil row_sum_Nil moved_Nil)
next
  case (Cons a r b r')
  have ih: "\<bar>row_sum (sub_scaled (Fin u) (add_scaled (Fin u) r r') r)
          - (row_sum r + moved u r' - moved u r)\<bar>
         \<le> real (length r) * rounding_unit"
    using Cons.prems by (intro Cons.IH) simp_all
  have cell: "\<bar>val (fsub (fadd a (fmul (Fin u) b)) (fmul (Fin u) a))
          - (val a + val (fmul (Fin u) b) - val (fmul (Fin u) a))\<bar> \<le> rounding_unit"
    unfolding rounding_unit_def using assms(4,5) Cons.prems by (intro cell_mid_error) simp_all
  show ?case
    unfolding add_scaled_Cons sub_scaled_Cons row_sum_Cons moved_Cons length_Cons
      real_Suc_mult
    using ih cell by linarith
qed

lemma row_last_error:
  assumes "\<forall>v \<in> set r. small_double v" and "0 \<le> u" "u \<le> 1"
  shows "\<bar>row_sum (sub_scaled (Fin u) r r) - (row_sum r - moved u r)\<bar>
         \<le> real (length r) * rounding_unit"
  using assms(1)
proof (induction r)
  case Nil
  show ?case by (simp add: sub_scaled_Nil row_sum_Nil moved_Nil)
next
  case (Cons a r)
  have ih: "\<bar>row_sum (sub_scaled (Fin u) r r) - (row_sum r - moved u r)\<bar>
         \<le> real (length r) * rounding_unit"
    using Cons.prems by (intro Cons.IH) simp_all
  have cell: "\<bar>val (fsub a (fmul (Fin u) a)) - (val a - val (fmul (Fin u) a))\<bar>
         \<le> rounding_unit"
    unfolding rounding_unit_def using assms(2,3) Cons.prems by (intro cell_last_error) simp_all
  show ?case
    unfolding sub_scaled_Cons row_sum_Cons moved_Cons length_Cons
      real_Suc_mult
    using ih cell by linarith
qed

lemma real_Suc_mult_mult: "real (Suc n * m) * e = real (n * m) * e + real m * e"
  by (simp add: algebra_simps)

lemma total_lower_rows_error:
  "rows_of_length m (r # g) \<Longrightarrow> all_cells small_double (r # g) \<Longrightarrow> 0 \<le> u \<Longrightarrow> u \<le> 1 \<Longrightarrow>
   \<bar>total (lower_rows (Fin u) (r # g)) - (total (r # g) - moved u r)\<bar>
     \<le> real (length (r # g) * m) * rounding_unit"
proof (induction g arbitrary: r)
  case Nil
  have "length r = m" using Nil.prems(1) by (simp add: rows_of_length_def)
  moreover have "\<bar>row_sum (sub_scaled (Fin u) r r) - (row_sum r - moved u r)\<bar>
         \<le> real (length r) * rounding_unit"
    using Nil.prems by (intro row_last_error) (simp_all add: all_cells_def)
  ultimately show ?case
    by (simp add: lower_rows_simps total_Cons total_Nil)
next
  case (Cons r' g)
  have len: "length r = m" "length r' = m"
    using Cons.prems(1) by (simp_all add: rows_of_length_def)
  have ih: "\<bar>total (lower_rows (Fin u) (r' # g)) - (total (r' # g) - moved u r')\<bar>
     \<le> real (length (r' # g) * m) * rounding_unit"
    using Cons.prems by (intro Cons.IH) (simp_all add: rows_of_length_def all_cells_def)
  have "\<bar>row_sum (sub_scaled (Fin u) (add_scaled (Fin u) r r') r)
          - (row_sum r + moved u r' - moved u r)\<bar>
         \<le> real (length r) * rounding_unit"
    using Cons.prems len by (intro row_mid_error) (simp_all add: all_cells_def)
  then have row: "\<bar>row_sum (sub_scaled (Fin u) (add_scaled (Fin u) r r') r)
          - (row_sum r + moved u r' - moved u r)\<bar>
         \<le> real m * rounding_unit"
    unfolding len .
  have sz: "length (r # r' # g) = Suc (length (r' # g))" by simp
  show ?case
    unfolding lower_rows_simps total_Cons [of r] total_Cons [of "sub_scaled _ _ _"] sz
      real_Suc_mult_mult
    using ih row by linarith
qed

lemma total_advect_up_error:
  assumes "rows_of_length m g" "all_cells small_double g" "0 \<le> u" "u \<le> 1"
  shows "\<bar>total (advect_up (Fin u) g) - total g\<bar> \<le> real (length g * m) * rounding_unit"
proof (cases g)
  case Nil
  then show ?thesis by (simp add: advect_up_simps)
next
  case (Cons r g')
  note g = Cons
  show ?thesis
  proof (cases g')
    case Nil
    have "0 \<le> rounding_unit" by (simp add: rounding_unit_def)
    with g Nil show ?thesis by (simp add: advect_up_simps)
  next
    case (Cons r' g'')
    have len: "length r = m" "length r' = m"
      using assms(1) g Cons by (simp_all add: rows_of_length_def)
    have low: "\<bar>total (lower_rows (Fin u) (r' # g'')) - (total (r' # g'') - moved u r')\<bar>
       \<le> real (length (r' # g'') * m) * rounding_unit"
      using assms g Cons
      by (intro total_lower_rows_error) (simp_all add: rows_of_length_def all_cells_def)
    have "\<bar>row_sum (add_scaled (Fin u) r r') - (row_sum r + moved u r')\<bar>
         \<le> real (length r) * rounding_unit"
      using assms g Cons len by (intro row_first_error) (simp_all add: all_cells_def)
    then have row: "\<bar>row_sum (add_scaled (Fin u) r r') - (row_sum r + moved u r')\<bar>
         \<le> real m * rounding_unit"
      unfolding len .
    have sz: "length (r # r' # g'') = Suc (length (r' # g''))" by simp
    have "\<bar>total (advect_up (Fin u) (r # r' # g'')) - total (r # r' # g'')\<bar>
       \<le> real (length (r # r' # g'') * m) * rounding_unit"
      unfolding advect_up_simps total_Cons [of r] total_Cons [of "add_scaled _ _ _"] sz
        real_Suc_mult_mult
      using low row by linarith
    then show ?thesis unfolding g Cons .
  qed
qed

subsection \<open>A grid of equal cells, and the claim about the buoyancy stage\<close>

lemma rne_between:
  assumes "of_int n \<le> y" "y < of_int n + 1 / 2"
  shows "rne y = n"
proof -
  have "\<lfloor>y\<rfloor> = n" using assms by (intro floor_unique) simp_all
  then show ?thesis using assms by (simp add: rne_def Let_def)
qed

lemma representable_1: "representable 1"
  unfolding representable_def
  by (rule exI [of _ 1], rule exI [of _ 0]) (simp add: pow2_def)

lemma representable_tiny: "representable tiny"
  unfolding representable_def
  by (rule exI [of _ 3], rule exI [of _ "- 55"]) (simp add: pow2_def tiny_def)

lemma tiny_bounds: "0 < tiny" "tiny < 1 / 2 ^ 53"
  by (simp_all add: tiny_def)

lemma fmul_tiny: "fmul (Fin tiny) (Fin 1) = Fin tiny"
proof -
  have "\<bar>tiny\<bar> < overflow_bound" using representable_tiny by (rule representable_lt_overflow)
  moreover have "nearest tiny = tiny"
    using representable_tiny tiny_bounds(1) by (intro nearest_representable) simp_all
  ultimately show ?thesis by (simp add: round64_Fin)
qed

lemma nearest_one_plus_tiny: "nearest (1 + tiny) = 1"
proof -
  have q: "quantum (1 + tiny) = - 52"
    using tiny_bounds by (intro quantum_eq) (simp_all add: pow2_def)
  have s: "(1 + tiny) / pow2 (- 52) = 2 ^ 52 + 3 / 8"
    by (simp add: pow2_def tiny_def)
  have "rne (2 ^ 52 + 3 / 8) = 2 ^ 52"
    by (rule rne_between) simp_all
  then show ?thesis
    unfolding nearest_def q s by (simp add: pow2_def)
qed

lemma nearest_one_minus_tiny: "nearest (1 - tiny) = 1 - 1 / 2 ^ 53"
proof -
  have q: "quantum (1 - tiny) = - 53"
    using tiny_bounds by (intro quantum_eq) (simp_all add: pow2_def)
  have s: "(1 - tiny) / pow2 (- 53) = 2 ^ 53 - 3 / 4"
    by (simp add: pow2_def tiny_def)
  have "rne (2 ^ 53 - 3 / 4) = 2 ^ 53 - 1"
    by (rule rne_between) simp_all
  then show ?thesis
    unfolding nearest_def q s by (simp add: pow2_def)
qed

lemma fadd_tiny: "fadd (Fin 1) (Fin tiny) = Fin 1"
proof -
  have "\<bar>1 + tiny\<bar> < 16" using tiny_bounds by simp
  with overflow_bound_big have "\<bar>1 + tiny\<bar> < overflow_bound" by simp
  then show ?thesis by (simp add: round64_Fin nearest_one_plus_tiny)
qed

lemma fsub_tiny: "fsub (Fin 1) (Fin tiny) = Fin (1 - 1 / 2 ^ 53)"
proof -
  have "\<bar>1 - tiny\<bar> < 16" using tiny_bounds by simp
  with overflow_bound_big have "\<bar>1 - tiny\<bar> < overflow_bound" by simp
  then show ?thesis by (simp add: fsub_def round64_Fin nearest_one_minus_tiny)
qed

lemma add_scaled_replicate:
  "add_scaled k (replicate m a) (replicate m b) = replicate m (fadd a (fmul k b))"
  by (simp add: add_scaled_def zip_replicate)

lemma sub_scaled_replicate:
  "sub_scaled k (replicate m a) (replicate m b) = replicate m (fsub a (fmul k b))"
  by (simp add: sub_scaled_def zip_replicate)

lemma lower_rows_uniform:
  assumes mid: "sub_scaled k (add_scaled k r r) r = r'" and fin: "sub_scaled k r r = r'"
  shows "lower_rows k (replicate (Suc n) r) = replicate (Suc n) r'"
proof (induction n)
  case 0
  show ?case by (simp add: lower_rows_simps fin)
next
  case (Suc n)
  have "lower_rows k (replicate (Suc (Suc n)) r) = lower_rows k (r # r # replicate n r)"
    by simp
  also have "\<dots> = sub_scaled k (add_scaled k r r) r # lower_rows k (r # replicate n r)"
    by (rule lower_rows_simps(3))
  also have "\<dots> = r' # lower_rows k (replicate (Suc n) r)"
    by (simp add: mid)
  also have "\<dots> = r' # replicate (Suc n) r'"
    by (simp only: Suc.IH)
  finally show ?case by simp
qed

lemma advect_up_uniform:
  assumes "sub_scaled k (add_scaled k r r) r = r'" and "sub_scaled k r r = r'"
  shows "advect_up k (replicate (Suc (Suc n)) r) = add_scaled k r r # replicate (Suc n) r'"
proof -
  have "advect_up k (replicate (Suc (Suc n)) r) = advect_up k (r # r # replicate n r)"
    by simp
  also have "\<dots> = add_scaled k r r # lower_rows k (r # replicate n r)"
    by (rule advect_up_simps(3))
  also have "\<dots> = add_scaled k r r # lower_rows k (replicate (Suc n) r)"
    by simp
  also have "\<dots> = add_scaled k r r # replicate (Suc n) r'"
    by (simp only: lower_rows_uniform [OF assms])
  finally show ?thesis .
qed

lemma row_sum_replicate: "row_sum (replicate m v) = real m * val v"
  by (induction m) (simp_all add: row_sum_def algebra_simps)

lemma total_replicate: "total (replicate n r) = real n * row_sum r"
  by (induction n) (simp_all add: total_Nil total_Cons algebra_simps)

lemma ones_row_first:
  "add_scaled (Fin tiny) (replicate m (Fin 1)) (replicate m (Fin 1)) = replicate m (Fin 1)"
  by (simp only: add_scaled_replicate fmul_tiny fadd_tiny)

lemma ones_row_last:
  "sub_scaled (Fin tiny) (replicate m (Fin 1)) (replicate m (Fin 1))
     = replicate m (Fin (1 - 1 / 2 ^ 53))"
  by (simp only: sub_scaled_replicate fmul_tiny fsub_tiny)

lemma ones_row_mid:
  "sub_scaled (Fin tiny)
     (add_scaled (Fin tiny) (replicate m (Fin 1)) (replicate m (Fin 1))) (replicate m (Fin 1))
     = replicate m (Fin (1 - 1 / 2 ^ 53))"
  by (simp only: ones_row_first ones_row_last)

lemma ones_advect_up:
  "advect_up (Fin tiny) (replicate 35 (replicate 70 (Fin 1)))
     = replicate 70 (Fin 1) # replicate 34 (replicate 70 (Fin (1 - 1 / 2 ^ 53)))"
proof -
  have n: "(35::nat) = Suc (Suc 33)" "(34::nat) = Suc 33" by simp_all
  show ?thesis
    unfolding n
    by (simp only: advect_up_uniform [OF ones_row_mid ones_row_last] ones_row_first)
qed

lemma ones_cells: "all_cells nonneg_double (replicate n (replicate m (Fin 1)))"
  by (simp add: all_cells_def representable_1)

lemma ones_tiny_grid: "c ones_tiny = replicate 35 (replicate 70 (Fin 1))"
  by (simp add: ones_tiny_def uniform_sim_def NX_def NY_def)

lemma ones_tiny_buoyancy: "buoyancy ones_tiny = Fin tiny"
  by (simp add: ones_tiny_def uniform_sim_def)

lemma ones_tiny_stage:
  "c (buoyancy_stage ones_tiny)
     = replicate 70 (Fin 1) # replicate 34 (replicate 70 (Fin (1 - 1 / 2 ^ 53)))"
proof -
  have g: "all_cells nonneg_double (replicate 35 (replicate 70 (Fin 1)))" by (rule ones_cells)
  have "all_cells not_negative (advect_up (Fin tiny) (replicate 35 (replicate 70 (Fin 1))))"
    using g tiny_bounds by (intro not_negative_advect_up) simp_all
  then have k: "clamp0 (advect_up (Fin tiny) (replicate 35 (replicate 70 (Fin 1))))
      = advect_up (Fin tiny) (replicate 35 (replicate 70 (Fin 1)))"
    by (rule clamp0_not_negative)
  have p: "is_positive (Fin tiny)" using tiny_bounds by simp
  have "c (buoyancy_stage ones_tiny)
      = clamp0 (advect_up (Fin tiny) (replicate 35 (replicate 70 (Fin 1))))"
    using p by (simp add: buoyancy_stage_def Let_def ones_tiny_grid ones_tiny_buoyancy)
  also have "\<dots> = advect_up (Fin tiny) (replicate 35 (replicate 70 (Fin 1)))"
    by (rule k)
  also have "\<dots> = replicate 70 (Fin 1) # replicate 34 (replicate 70 (Fin (1 - 1 / 2 ^ 53)))"
    by (rule ones_advect_up)
  finally show ?thesis .
qed

lemma rectangular_rows: "rectangular g \<Longrightarrow> rows_of_length (length (hd g)) g"
  by (simp add: rectangular_def rows_of_length_def)

lemma all_cells_small:
  "all_cells nonneg_double g \<Longrightarrow> all_cells (between 0 6) g \<Longrightarrow> all_cells small_double g"
  by (simp add: all_cells_def small_double_def)

lemma between_wider: "between 0 6 v \<Longrightarrow> between 0 12 v"
  by (cases v) simp_all

text \<open>
  C10 (buoyancy and mass), as the code has it. For every grid whose cells are
  non-negative doubles and every buoyancy value in \<open>[0, 1]\<close>, the buoyancy stage
  leaves every cell not negative (never NaN), and its clamp to zero changes no value:
  the clamped grid is the grid before the clamp. The sum of all cells is not exactly
  unchanged, since every addition and subtraction of the stage is rounded; for a
  rectangular grid whose cells lie in \<open>[0, 6]\<close> (where the injection into a grid
  clipped to \<open>[0, 5]\<close> leaves them), the cells after the stage are finite and the
  sum changes by at most \<open>2^-49\<close> for each cell of the grid.
\<close>

theorem buoyancy_nearly_conserves:
  assumes g: "all_cells nonneg_double (c s)" and up: "between 0 1 (buoyancy s)"
  shows "all_cells not_negative (c (buoyancy_stage s))
       \<and> clamp0 (advect_up (buoyancy s) (c s)) = advect_up (buoyancy s) (c s)
       \<and> (rectangular (c s) \<and> all_cells (between 0 6) (c s) \<longrightarrow>
            all_cells (between 0 12) (c (buoyancy_stage s))
            \<and> \<bar>total (c (buoyancy_stage s)) - total (c s)\<bar>
                 \<le> real (length (c s) * length (hd (c s))) / 2 ^ 49)"
proof -
  from up obtain u where u: "buoyancy s = Fin u" "0 \<le> u" "u \<le> 1"
    by (cases "buoyancy s") simp_all
  have n: "all_cells not_negative (advect_up (Fin u) (c s))"
    using g u(2,3) by (rule not_negative_advect_up)
  then have k: "clamp0 (advect_up (Fin u) (c s)) = advect_up (Fin u) (c s)"
    by (rule clamp0_not_negative)
  have o: "all_cells not_negative (c s)"
    using g by (auto simp add: all_cells_def nonneg_double_not_negative)
  have stage: "c (buoyancy_stage s) = (if 0 < u then advect_up (Fin u) (c s) else c s)"
    using k by (simp add: buoyancy_stage_def Let_def u(1))
  have first: "all_cells not_negative (c (buoyancy_stage s))"
    using n o by (simp add: stage)
  have second: "clamp0 (advect_up (buoyancy s) (c s)) = advect_up (buoyancy s) (c s)"
    using k by (simp add: u(1))
  have third: "all_cells (between 0 12) (c (buoyancy_stage s))
       \<and> \<bar>total (c (buoyancy_stage s)) - total (c s)\<bar>
            \<le> real (length (c s) * length (hd (c s))) / 2 ^ 49"
    if r: "rectangular (c s)" and b: "all_cells (between 0 6) (c s)"
  proof -
    have sm: "all_cells small_double (c s)" using g b by (rule all_cells_small)
    have rows: "rows_of_length (length (hd (c s))) (c s)" using r by (rule rectangular_rows)
    have b12: "all_cells (between 0 12) (advect_up (Fin u) (c s))"
      using sm u(2,3) by (rule bounded_advect_up)
    have b12': "all_cells (between 0 12) (c s)"
      using b by (auto simp add: all_cells_def between_wider)
    have "\<bar>total (advect_up (Fin u) (c s)) - total (c s)\<bar>
        \<le> real (length (c s) * length (hd (c s))) * rounding_unit"
      using rows sm u(2,3) by (rule total_advect_up_error)
    then have e: "\<bar>total (advect_up (Fin u) (c s)) - total (c s)\<bar>
        \<le> real (length (c s) * length (hd (c s))) / 2 ^ 49"
      by (simp add: rounding_unit_def)
    have z: "(0::real) \<le> real (length (c s) * length (hd (c s))) / 2 ^ 49" by simp
    show ?thesis
    proof (cases "0 < u")
      case True
      then have "c (buoyancy_stage s) = advect_up (Fin u) (c s)" by (simp add: stage)
      then show ?thesis using b12 e by simp
    next
      case False
      then have "c (buoyancy_stage s) = c s" by (simp add: stage)
      then show ?thesis using b12' z by simp
    qed
  qed
  from first second third show ?thesis by blast
qed

lemma ones_default_grid: "c ones_default = replicate 35 (replicate 70 (Fin 1))"
  by (simp add: ones_default_def uniform_sim_def NX_def NY_def)

text \<open>The grid of the simulator with every cell 1, at the default buoyancy.\<close>

theorem buoyancy_nearly_conserves_witness:
  "all_cells nonneg_double (c ones_default) \<and> between 0 1 (buoyancy ones_default)
   \<and> rectangular (c ones_default) \<and> all_cells (between 0 6) (c ones_default)
   \<and> all_cells not_negative (c (buoyancy_stage ones_default))
   \<and> clamp0 (advect_up (buoyancy ones_default) (c ones_default))
       = advect_up (buoyancy ones_default) (c ones_default)
   \<and> all_cells (between 0 12) (c (buoyancy_stage ones_default))
   \<and> \<bar>total (c (buoyancy_stage ones_default)) - total (c ones_default)\<bar> \<le> 2450 / 2 ^ 49"
proof -
  have g: "all_cells nonneg_double (c ones_default)"
    unfolding ones_default_grid by (rule ones_cells)
  have up: "between 0 1 (buoyancy ones_default)"
    by (simp add: ones_default_def uniform_sim_def)
  have r: "rectangular (c ones_default)"
    by (simp add: ones_default_grid rectangular_def)
  have b: "all_cells (between 0 6) (c ones_default)"
    by (simp add: ones_default_grid all_cells_def)
  have n: "real (length (c ones_default) * length (hd (c ones_default))) = 2450"
    by (simp add: ones_default_grid)
  from buoyancy_nearly_conserves [OF g up] r b n g up show ?thesis
    by simp
qed

text \<open>
  The claim as it is written, the sum exactly unchanged, fails: on the grid of 35 rows
  of 70 cells with every cell 1 and the buoyancy \<open>3 / 2^55\<close>, the sum \<open>1 + up * 1\<close>
  rounds to 1 and the difference \<open>1 - up * 1\<close> rounds to \<open>1 - 2^-53\<close>, so the first
  row keeps its values and each of the 2380 cells of the other rows loses \<open>2^-53\<close>:
  the sum falls from 2450 to \<open>2450 - 2380 / 2^53\<close>.
\<close>

theorem buoyancy_drift_counterexample:
  "all_cells nonneg_double (c ones_tiny) \<and> between 0 1 (buoyancy ones_tiny)
   \<and> total (c ones_tiny) = 2450
   \<and> total (c (buoyancy_stage ones_tiny)) = 2450 - 2380 / 2 ^ 53"
proof -
  have g: "all_cells nonneg_double (c ones_tiny)"
    unfolding ones_tiny_grid by (rule ones_cells)
  have up: "between 0 1 (buoyancy ones_tiny)"
    using tiny_bounds by (simp add: ones_tiny_buoyancy tiny_def)
  have t: "total (c ones_tiny) = 2450"
    by (simp add: ones_tiny_grid total_replicate row_sum_replicate)
  have t': "total (c (buoyancy_stage ones_tiny)) = 2450 - 2380 / 2 ^ 53"
    by (simp add: ones_tiny_stage total_Cons total_replicate row_sum_replicate)
  from g up t t' show ?thesis by simp
qed

end
